theory Spec2Isabelle
  imports Complex_Main "HOL-Library.Multiset"
begin

section \<open>Data model (types/index.ts)\<close>

text \<open>
  Nodes and links refer to each other: a link holds its two end nodes, a node holds
  the arrays of its outgoing and incoming links, and the layout mutates all of them in
  place. The objects therefore live in a store; a reference is an index into it.
  JavaScript numbers are modelled as reals (no NaN, no infinities, no rounding), the
  column index \<open>depth\<close> as a natural number.
\<close>

record SankeyNode =
  node_id :: string
  node_label :: string
  node_value :: real
  node_depth :: nat
  node_x :: real
  node_y :: real
  node_width :: real
  node_height :: real
  sourceLinks :: "nat list"
  targetLinks :: "nat list"

record SankeyLink =
  link_source :: nat
  link_target :: nat
  link_value :: real
  link_width :: real
  link_sy :: real
  link_ty :: real

record Store =
  nodeStore :: "SankeyNode list"
  linkStore :: "SankeyLink list"

record SankeyGraph =
  graph_nodes :: "nat list"
  graph_links :: "nat list"

record Padding =
  pad_top :: real
  pad_right :: real
  pad_bottom :: real
  pad_left :: real

datatype NodeAlign = AlignLeft | AlignRight | AlignCenter | Justify

record SankeyConfig =
  cfg_width :: real
  cfg_height :: real
  padding :: Padding
  nodeWidth :: real
  nodePadding :: real
  nodeAlign :: NodeAlign
  iterations :: real

record JourneyMetrics =
  jm_nodeId :: string
  jm_label :: string
  inflow :: real
  outflow :: real
  dropOff :: real
  dropOffRate :: real
  conversionRate :: real
  isSource :: bool
  isSink :: bool

datatype error = TypeError

subsection \<open>The store\<close>

text \<open>
  A JavaScript reference always points to an object, so every reference of a store that
  stands for a program state is in range. Reading outside the range gives a fixed blank
  object and writing there changes nothing; this keeps the store operations total.
\<close>

definition blankNode :: SankeyNode where
  "blankNode = \<lparr>node_id = [], node_label = [], node_value = 0, node_depth = 0,
     node_x = 0, node_y = 0, node_width = 0, node_height = 0,
     sourceLinks = [], targetLinks = []\<rparr>"

definition blankLink :: SankeyLink where
  "blankLink = \<lparr>link_source = 0, link_target = 0, link_value = 0, link_width = 0,
     link_sy = 0, link_ty = 0\<rparr>"

definition nodeAt :: "Store \<Rightarrow> nat \<Rightarrow> SankeyNode" where
  "nodeAt s r = (if r < length (nodeStore s) then nodeStore s ! r else blankNode)"

definition linkAt :: "Store \<Rightarrow> nat \<Rightarrow> SankeyLink" where
  "linkAt s l = (if l < length (linkStore s) then linkStore s ! l else blankLink)"

definition updNode :: "nat \<Rightarrow> (SankeyNode \<Rightarrow> SankeyNode) \<Rightarrow> Store \<Rightarrow> Store" where
  "updNode r f s = s\<lparr>nodeStore := (nodeStore s)[r := f (nodeAt s r)]\<rparr>"

definition updLink :: "nat \<Rightarrow> (SankeyLink \<Rightarrow> SankeyLink) \<Rightarrow> Store \<Rightarrow> Store" where
  "updLink l f s = s\<lparr>linkStore := (linkStore s)[l := f (linkAt s l)]\<rparr>"

section \<open>JourneyAnalyzer (transforms/journey.ts)\<close>

definition linkSum :: "Store \<Rightarrow> nat list \<Rightarrow> real" where
  \<comment> \<open>\<open>links.reduce((s, l) => s + l.value, 0)\<close>\<close>
  "linkSum s ls = foldl (\<lambda>acc l. acc + link_value (linkAt s l)) 0 ls"

definition analyzeNode :: "Store \<Rightarrow> nat \<Rightarrow> JourneyMetrics" where
  "analyzeNode s r =
     (let node = nodeAt s r;
          inflow' = linkSum s (targetLinks node);
          outflow' = linkSum s (sourceLinks node);
          isSource' = (length (targetLinks node) = 0);
          isSink' = (length (sourceLinks node) = 0);
          dropOff' = (if isSource' \<or> isSink' then 0 else inflow' - outflow');
          dropOffRate' = (if inflow' > 0 \<and> \<not> isSource' then dropOff' / inflow' else 0);
          conversionRate' = (if inflow' > 0 \<and> \<not> isSource' then outflow' / inflow'
                             else if isSource' then 1 else 0)
      in \<lparr>jm_nodeId = node_id node, jm_label = node_label node,
          inflow = inflow', outflow = outflow', dropOff = dropOff',
          dropOffRate = dropOffRate', conversionRate = conversionRate',
          isSource = isSource', isSink = isSink'\<rparr>)"

definition analyze :: "SankeyGraph \<Rightarrow> Store \<Rightarrow> JourneyMetrics list" where
  "analyze g s = map (analyzeNode s) (graph_nodes g)"

section \<open>SankeyLayout (layout/sankey.ts)\<close>

subsection \<open>computeDepths\<close>

definition setDepth :: "nat \<Rightarrow> nat \<Rightarrow> Store \<Rightarrow> Store" where
  \<comment> \<open>\<open>node.depth = d\<close>\<close>
  "setDepth r d s = updNode r (\<lambda>n. n\<lparr>node_depth := d\<rparr>) s"

definition pushTargets :: "Store \<Rightarrow> string set \<Rightarrow> nat list \<Rightarrow> nat list" where
  \<comment> \<open>the loop over \<open>node.sourceLinks\<close>: the targets pushed onto \<open>next\<close>\<close>
  "pushTargets s visited ls =
     filter (\<lambda>t. node_id (nodeAt s t) \<notin> visited) (map (\<lambda>l. link_target (linkAt s l)) ls)"

fun visitLayer :: "nat \<Rightarrow> nat list \<Rightarrow> Store \<times> string set \<times> nat list
    \<Rightarrow> Store \<times> string set \<times> nat list" where
  \<comment> \<open>\<open>for (const node of current)\<close>, on the state (store, visited, next)\<close>
  "visitLayer depth [] st = st"
| "visitLayer depth (r # rs) (s, visited, nxt) =
     (if node_id (nodeAt s r) \<in> visited then visitLayer depth rs (s, visited, nxt)
      else
        let visited' = insert (node_id (nodeAt s r)) visited;
            s' = setDepth r depth s;
            nxt' = nxt @ pushTargets s' visited' (sourceLinks (nodeAt s' r))
        in visitLayer depth rs (s', visited', nxt'))"

definition allIds :: "Store \<Rightarrow> string set" where
  "allIds s = node_id ` insert blankNode (set (nodeStore s))"

function bfs :: "Store \<Rightarrow> string set \<Rightarrow> nat list \<Rightarrow> nat \<Rightarrow> Store \<times> string set" where
  \<comment> \<open>\<open>while (current.length > 0)\<close>\<close>
  "bfs s visited current depth =
     (if current = [] then (s, visited)
      else case visitLayer depth current (s, visited, []) of
             (s', visited', nxt) \<Rightarrow> bfs s' visited' nxt (Suc depth))"
  by pat_completeness auto

definition maxDepthOf :: "Store \<Rightarrow> nat list \<Rightarrow> nat" where
  \<comment> \<open>\<open>Math.max(...nodes.map(n => n.depth), 0)\<close>\<close>
  "maxDepthOf s ns = fold max (map (\<lambda>r. node_depth (nodeAt s r)) ns) 0"

definition markUnvisited :: "string set \<Rightarrow> nat list \<Rightarrow> Store \<Rightarrow> Store" where
  \<comment> \<open>unvisited nodes (disconnected components) get depth 0\<close>
  "markUnvisited visited ns s =
     fold (\<lambda>r st. if node_id (nodeAt st r) \<notin> visited then setDepth r 0 st else st) ns s"

definition justifySinks :: "nat list \<Rightarrow> Store \<Rightarrow> Store" where
  \<comment> \<open>\<open>nodeAlign === 'justify'\<close>: sinks go to the rightmost column. The source takes
      the maximum without the extra 0; the node list is not empty here and depths are
      natural numbers, so it is the same number.\<close>
  "justifySinks ns s =
     (let maxDepth = maxDepthOf s ns
      in fold (\<lambda>r st. if length (sourceLinks (nodeAt st r)) = 0 \<and> node_depth (nodeAt st r) < maxDepth
                       then setDepth r maxDepth st else st) ns s)"

definition computeDepths :: "SankeyConfig \<Rightarrow> nat list \<Rightarrow> Store \<Rightarrow> Store" where
  "computeDepths cfg ns s =
     (let sources = filter (\<lambda>r. length (targetLinks (nodeAt s r)) = 0) ns
      in if length sources = 0 then fold (\<lambda>r. setDepth r 0) ns s
         else case bfs s {} sources 0 of
                (s1, visited) \<Rightarrow>
                  let s2 = markUnvisited visited ns s1
                  in if nodeAlign cfg = Justify then justifySinks ns s2 else s2)"

subsection \<open>computeNodeValues, positionNodesX\<close>

definition computeNodeValues :: "nat list \<Rightarrow> Store \<Rightarrow> Store" where
  "computeNodeValues ns s =
     fold (\<lambda>r st.
             let inSum = linkSum st (targetLinks (nodeAt st r));
                 outSum = linkSum st (sourceLinks (nodeAt st r))
             in updNode r (\<lambda>n. n\<lparr>node_value := max inSum outSum\<rparr>) st) ns s"

definition positionNodesX :: "SankeyConfig \<Rightarrow> nat list \<Rightarrow> Store \<Rightarrow> Store" where
  "positionNodesX cfg ns s =
     (let innerWidth = cfg_width cfg - pad_left (padding cfg) - pad_right (padding cfg) - nodeWidth cfg;
          maxDepth = maxDepthOf s ns;
          step = (if maxDepth > 0 then innerWidth / real maxDepth else 0)
      in fold (\<lambda>r. updNode r (\<lambda>n. n\<lparr>node_x := pad_left (padding cfg) + real (node_depth n) * step,
                                      node_width := nodeWidth cfg\<rparr>)) ns s)"

subsection \<open>getColumns\<close>

definition getColumns :: "Store \<Rightarrow> nat list \<Rightarrow> nat list list" where
  "getColumns s ns =
     (let maxDepth = maxDepthOf s ns
      in fold (\<lambda>r columns. columns[node_depth (nodeAt s r) := columns ! node_depth (nodeAt s r) @ [r]])
           ns (replicate (maxDepth + 1) []))"

subsection \<open>initializeNodeY\<close>

definition columnValue :: "Store \<Rightarrow> nat list \<Rightarrow> real" where
  \<comment> \<open>\<open>column.reduce((s, n) => s + n.value, 0)\<close>\<close>
  "columnValue s column = foldl (\<lambda>acc r. acc + node_value (nodeAt s r)) 0 column"

definition scaleStep :: "SankeyConfig \<Rightarrow> Store \<Rightarrow> nat list \<Rightarrow> real option \<Rightarrow> real option" where
  \<comment> \<open>one round of the loop that narrows \<open>globalScale\<close>; \<open>None\<close> is \<open>Infinity\<close>\<close>
  "scaleStep cfg s column globalScale =
     (let innerHeight = cfg_height cfg - pad_top (padding cfg) - pad_bottom (padding cfg);
          totalValue = columnValue s column;
          totalPadding = max 0 ((real (length column) - 1) * nodePadding cfg);
          availableHeight = innerHeight - totalPadding
      in if totalValue > 0 then
           let scale = availableHeight / totalValue
           in (case globalScale of
                 None \<Rightarrow> Some scale
               | Some g \<Rightarrow> if scale < g then Some scale else Some g)
         else globalScale)"

definition computeGlobalScale :: "SankeyConfig \<Rightarrow> Store \<Rightarrow> nat list list \<Rightarrow> real" where
  \<comment> \<open>\<open>if (!isFinite(globalScale)) globalScale = 0\<close>\<close>
  "computeGlobalScale cfg s columns =
     (case fold (scaleStep cfg s) columns None of None \<Rightarrow> 0 | Some g \<Rightarrow> g)"

fun stackColumn :: "SankeyConfig \<Rightarrow> real \<Rightarrow> nat list \<Rightarrow> real \<Rightarrow> Store \<Rightarrow> Store" where
  "stackColumn cfg globalScale [] y s = s"
| "stackColumn cfg globalScale (r # rs) y s =
     (let s' = updNode r (\<lambda>n. n\<lparr>node_y := y, node_height := max 1 (node_value n * globalScale)\<rparr>) s;
          y' = y + node_height (nodeAt s' r) + nodePadding cfg
      in stackColumn cfg globalScale rs y' s')"

definition initializeNodeY :: "SankeyConfig \<Rightarrow> nat list \<Rightarrow> Store \<Rightarrow> Store" where
  \<comment> \<open>\<open>column.sort((a, b) => b.value - a.value)\<close> is a stable sort by descending value\<close>
  "initializeNodeY cfg ns s =
     (let columns = getColumns s ns;
          globalScale = computeGlobalScale cfg s columns
      in fold (\<lambda>column st.
                 stackColumn cfg globalScale
                   (sort_key (\<lambda>r. - node_value (nodeAt st r)) column) (pad_top (padding cfg)) st)
           columns s)"

subsection \<open>relaxNodePositions, weightedCenter, nodeCenter, resolveCollisions\<close>

datatype Direction = DirSource | DirTarget

definition nodeCenter :: "Store \<Rightarrow> nat \<Rightarrow> real" where
  "nodeCenter s r = node_y (nodeAt s r) + node_height (nodeAt s r) / 2"

definition linksOf :: "Direction \<Rightarrow> SankeyNode \<Rightarrow> nat list" where
  "linksOf dir n = (if dir = DirTarget then targetLinks n else sourceLinks n)"

definition otherEnd :: "Direction \<Rightarrow> SankeyLink \<Rightarrow> nat" where
  "otherEnd dir k = (if dir = DirTarget then link_source k else link_target k)"

definition weightedCenter :: "Store \<Rightarrow> nat \<Rightarrow> Direction \<Rightarrow> real" where
  "weightedCenter s r dir =
     (case fold (\<lambda>l (sumWeightedY, sumWeight).
                   let center = nodeCenter s (otherEnd dir (linkAt s l))
                   in (sumWeightedY + center * link_value (linkAt s l),
                       sumWeight + link_value (linkAt s l)))
             (linksOf dir (nodeAt s r)) (0, 0) of
        (sumWeightedY, sumWeight) \<Rightarrow>
          if sumWeight > 0 then sumWeightedY / sumWeight else nodeCenter s r)"

fun pushDown :: "SankeyConfig \<Rightarrow> nat list \<Rightarrow> real \<Rightarrow> Store \<Rightarrow> Store" where
  \<comment> \<open>push down overlapping nodes\<close>
  "pushDown cfg [] y s = s"
| "pushDown cfg (r # rs) y s =
     (let dy = y - node_y (nodeAt s r);
          s' = (if dy > 0 then updNode r (\<lambda>n. n\<lparr>node_y := node_y n + dy\<rparr>) s else s);
          y' = node_y (nodeAt s' r) + node_height (nodeAt s' r) + nodePadding cfg
      in pushDown cfg rs y' s')"

fun pushUp :: "SankeyConfig \<Rightarrow> nat list \<Rightarrow> nat \<Rightarrow> Store \<Rightarrow> Store" where
  \<comment> \<open>\<open>for (let i = column.length - 2; i >= 0; i--)\<close>; the counter is \<open>i + 1\<close>\<close>
  "pushUp cfg column 0 s = s"
| "pushUp cfg column (Suc i) s =
     (let overflow = node_y (nodeAt s (column ! i)) + node_height (nodeAt s (column ! i))
                       + nodePadding cfg - node_y (nodeAt s (column ! Suc i));
          s' = (if overflow > 0
                then updNode (column ! i) (\<lambda>n. n\<lparr>node_y := node_y n - overflow\<rparr>) s else s)
      in pushUp cfg column i s')"

definition resolveCollisions :: "SankeyConfig \<Rightarrow> nat list \<Rightarrow> Store \<Rightarrow> error + (nat list \<times> Store)" where
  \<comment> \<open>The column array is sorted in place, so the sorted array is returned with the
      store. On an empty column \<open>last\<close> is \<open>undefined\<close> and reading \<open>last.y\<close> throws.\<close>
  "resolveCollisions cfg column0 s =
     (let innerBottom = cfg_height cfg - pad_bottom (padding cfg);
          column = sort_key (\<lambda>r. node_y (nodeAt s r)) column0;
          s1 = pushDown cfg column (pad_top (padding cfg)) s
      in if column = [] then Inl TypeError
         else
           let lastr = last column;
               overflow = node_y (nodeAt s1 lastr) + node_height (nodeAt s1 lastr) - innerBottom
           in if overflow > 0 then
                Inr (column,
                     pushUp cfg column (length column - 1)
                       (updNode lastr (\<lambda>n. n\<lparr>node_y := node_y n - overflow\<rparr>) s1))
              else Inr (column, s1))"

definition moveNode :: "Direction \<Rightarrow> real \<Rightarrow> nat \<Rightarrow> Store \<Rightarrow> Store" where
  \<comment> \<open>body of the loop over a column's nodes, forward (\<open>DirTarget\<close>) or backward (\<open>DirSource\<close>)\<close>
  "moveNode dir damping r s =
     (if length (linksOf dir (nodeAt s r)) = 0 then s
      else
        let weightedCenter' = weightedCenter s r dir;
            delta = weightedCenter' - nodeCenter s r
        in updNode r (\<lambda>n. n\<lparr>node_y := node_y n + delta * damping\<rparr>) s)"

definition relaxColumn :: "SankeyConfig \<Rightarrow> Direction \<Rightarrow> real \<Rightarrow> nat \<Rightarrow> nat list list \<times> Store
    \<Rightarrow> error + (nat list list \<times> Store)" where
  "relaxColumn cfg dir damping c st =
     (case st of (columns, s) \<Rightarrow>
        let s1 = fold (moveNode dir damping) (columns ! c) s
        in case resolveCollisions cfg (columns ! c) s1 of
             Inl e \<Rightarrow> Inl e
           | Inr (column, s2) \<Rightarrow> Inr (columns[c := column], s2))"

fun relaxPass :: "SankeyConfig \<Rightarrow> Direction \<Rightarrow> real \<Rightarrow> nat list \<Rightarrow> nat list list \<times> Store
    \<Rightarrow> error + (nat list list \<times> Store)" where
  "relaxPass cfg dir damping [] st = Inr st"
| "relaxPass cfg dir damping (c # cs) st =
     (case relaxColumn cfg dir damping c st of
        Inl e \<Rightarrow> Inl e
      | Inr st' \<Rightarrow> relaxPass cfg dir damping cs st')"

definition damping :: "SankeyConfig \<Rightarrow> nat \<Rightarrow> real" where
  \<comment> \<open>\<open>alpha * (1 - (i / this.config.iterations))\<close> with \<open>alpha = 1\<close>\<close>
  "damping cfg i = 1 * (1 - real i / iterations cfg)"

definition relaxIteration :: "SankeyConfig \<Rightarrow> real \<Rightarrow> nat list list \<times> Store
    \<Rightarrow> error + (nat list list \<times> Store)" where
  \<comment> \<open>forward pass over columns \<open>1 .. length - 1\<close>, backward pass over \<open>length - 2 .. 0\<close>\<close>
  "relaxIteration cfg d st =
     (case relaxPass cfg DirTarget d [1 ..< length (fst st)] st of
        Inl e \<Rightarrow> Inl e
      | Inr st1 \<Rightarrow> relaxPass cfg DirSource d (rev [0 ..< length (fst st1) - 1]) st1)"

function relaxLoop :: "SankeyConfig \<Rightarrow> nat \<Rightarrow> nat list list \<times> Store
    \<Rightarrow> error + (nat list list \<times> Store)" where
  \<comment> \<open>\<open>for (let i = 0; i < this.config.iterations; i++)\<close>\<close>
  "relaxLoop cfg i st =
     (if real i < iterations cfg then
        case relaxIteration cfg (damping cfg i) st of
          Inl e \<Rightarrow> Inl e
        | Inr st' \<Rightarrow> relaxLoop cfg (Suc i) st'
      else Inr st)"
  by pat_completeness auto

definition relaxNodePositions :: "SankeyConfig \<Rightarrow> nat list \<Rightarrow> Store \<Rightarrow> error + Store" where
  "relaxNodePositions cfg ns s =
     (case relaxLoop cfg 0 (getColumns s ns, s) of
        Inl e \<Rightarrow> Inl e
      | Inr (columns, s') \<Rightarrow> Inr s')"

subsection \<open>computeLinkOffsets\<close>

definition sortLinks :: "nat \<Rightarrow> Store \<Rightarrow> Store" where
  \<comment> \<open>outgoing links by target y, incoming links by source y (stable sorts)\<close>
  "sortLinks r s =
     (let s1 = updNode r (\<lambda>n. n\<lparr>sourceLinks :=
                 sort_key (\<lambda>l. node_y (nodeAt s (link_target (linkAt s l)))) (sourceLinks n)\<rparr>) s
      in updNode r (\<lambda>n. n\<lparr>targetLinks :=
                 sort_key (\<lambda>l. node_y (nodeAt s1 (link_source (linkAt s1 l)))) (targetLinks n)\<rparr>) s1)"

fun sourceOffsets :: "real \<Rightarrow> nat \<Rightarrow> nat list \<Rightarrow> real \<Rightarrow> Store \<Rightarrow> Store" where
  \<comment> \<open>\<open>for (const link of node.sourceLinks)\<close> with the running \<open>sy\<close>\<close>
  "sourceOffsets outTotal r [] sy s = s"
| "sourceOffsets outTotal r (l # ls) sy s =
     (let s' = updLink l (\<lambda>k. k\<lparr>link_width :=
                   (if outTotal > 0 then (link_value k / outTotal) * node_height (nodeAt s r) else 0),
                 link_sy := sy\<rparr>) s
      in sourceOffsets outTotal r ls (sy + link_width (linkAt s' l)) s')"

fun targetOffsets :: "nat list \<Rightarrow> real \<Rightarrow> Store \<Rightarrow> Store" where
  \<comment> \<open>\<open>for (const link of node.targetLinks)\<close> with the running \<open>ty\<close>\<close>
  "targetOffsets [] ty s = s"
| "targetOffsets (l # ls) ty s =
     (let s' = updLink l (\<lambda>k. k\<lparr>link_ty := ty\<rparr>) s
      in targetOffsets ls (ty + link_width (linkAt s' l)) s')"

definition computeLinkOffsets :: "nat list \<Rightarrow> Store \<Rightarrow> Store" where
  "computeLinkOffsets ns s =
     (let columns = getColumns s ns;
          s1 = fold (\<lambda>column st. fold sortLinks column st) columns s;
          s2 = fold (\<lambda>r st. sourceOffsets (linkSum st (sourceLinks (nodeAt st r))) r
                              (sourceLinks (nodeAt st r)) 0 st) ns s1;
          s3 = fold (\<lambda>r st. targetOffsets (targetLinks (nodeAt st r)) 0 st) ns s2
      in s3)"

subsection \<open>compute\<close>

definition compute :: "SankeyConfig \<Rightarrow> SankeyGraph \<Rightarrow> Store \<Rightarrow> error + (SankeyGraph \<times> Store)" where
  "compute cfg graph s =
     (let ns = graph_nodes graph
      in if length ns = 0 then Inr (graph, s)
         else
           let s1 = computeDepths cfg ns s;
               s2 = computeNodeValues ns s1;
               s3 = positionNodesX cfg ns s2;
               s4 = initializeNodeY cfg ns s3
           in case relaxNodePositions cfg ns s4 of
                Inl e \<Rightarrow> Inl e
              | Inr s5 \<Rightarrow> Inr (graph, computeLinkOffsets ns s5))"

section \<open>Reference runs and test fixtures\<close>

fun iterateWith :: "SankeyConfig \<Rightarrow> real list \<Rightarrow> nat list list \<times> Store
    \<Rightarrow> error + (nat list list \<times> Store)" where
  \<comment> \<open>one relaxation iteration per listed damping factor, in order; an exception ends the run\<close>
  "iterateWith cfg [] st = Inr st"
| "iterateWith cfg (d # ds) st =
     (case relaxIteration cfg d st of
        Inl e \<Rightarrow> Inl e
      | Inr st' \<Rightarrow> iterateWith cfg ds st')"

definition DEFAULT_CONFIG :: SankeyConfig where
  \<comment> \<open>types/index.ts, the fields the layout reads\<close>
  "DEFAULT_CONFIG = \<lparr>cfg_width = 800, cfg_height = 500,
     padding = \<lparr>pad_top = 20, pad_right = 120, pad_bottom = 20, pad_left = 20\<rparr>,
     nodeWidth = 18, nodePadding = 14, nodeAlign = Justify, iterations = 32\<rparr>"

definition makeNode :: "string \<Rightarrow> nat list \<Rightarrow> nat list \<Rightarrow> SankeyNode" where
  \<comment> \<open>\<open>makeNode\<close> of tests/layout.test.ts, with the link arrays that the calls of
      \<open>makeLink\<close> leave in the node\<close>
  "makeNode i outs ins = \<lparr>node_id = i, node_label = i, node_value = 0, node_depth = 0,
     node_x = 0, node_y = 0, node_width = 0, node_height = 0,
     sourceLinks = outs, targetLinks = ins\<rparr>"

definition makeLink :: "nat \<Rightarrow> nat \<Rightarrow> real \<Rightarrow> SankeyLink" where
  "makeLink a b v = \<lparr>link_source = a, link_target = b, link_value = v,
     link_width = 0, link_sy = 0, link_ty = 0\<rparr>"

definition chainStore :: Store where
  \<comment> \<open>the chain A \<rightarrow> B (10), B \<rightarrow> C (7) of the test "computes node values as max(inflow, outflow)"\<close>
  "chainStore = \<lparr>nodeStore = [makeNode ''A'' [0] [], makeNode ''B'' [1] [0], makeNode ''C'' [] [1]],
                  linkStore = [makeLink 0 1 10, makeLink 1 2 7]\<rparr>"

definition chainGraph :: SankeyGraph where
  "chainGraph = \<lparr>graph_nodes = [0, 1, 2], graph_links = [0, 1]\<rparr>"

definition cycleStore :: Store where
  \<comment> \<open>a graph with no source: A \<rightarrow> B (4), B \<rightarrow> A (4)\<close>
  "cycleStore = \<lparr>nodeStore = [makeNode ''A'' [0] [1], makeNode ''B'' [1] [0]],
                  linkStore = [makeLink 0 1 4, makeLink 1 0 4]\<rparr>"

definition cycleGraph :: SankeyGraph where
  "cycleGraph = \<lparr>graph_nodes = [0, 1], graph_links = [0, 1]\<rparr>"

definition relaidCycleStore :: Store where
  \<comment> \<open>the cycle as an earlier layout of a larger graph may leave it: A in column 2,
      B in column 1\<close>
  "relaidCycleStore = \<lparr>nodeStore = [(makeNode ''A'' [0] [1])\<lparr>node_depth := 2\<rparr>,
                                        (makeNode ''B'' [1] [0])\<lparr>node_depth := 1\<rparr>],
                        linkStore = [makeLink 0 1 4, makeLink 1 0 4]\<rparr>"

definition twoIterations :: SankeyConfig where
  \<comment> \<open>the default configuration with two relaxation iterations\<close>
  "twoIterations = DEFAULT_CONFIG\<lparr>iterations := 2\<rparr>"

definition branchStore :: Store where
  \<comment> \<open>A \<rightarrow> B (3), A \<rightarrow> C (1), B \<rightarrow> D (2)\<close>
  "branchStore = \<lparr>nodeStore = [makeNode ''A'' [0, 1] [], makeNode ''B'' [2] [0],
                                   makeNode ''C'' [] [1], makeNode ''D'' [] [2]],
                   linkStore = [makeLink 0 1 3, makeLink 0 2 1, makeLink 1 3 2]\<rparr>"

definition branchGraph :: SankeyGraph where
  "branchGraph = \<lparr>graph_nodes = [0, 1, 2, 3], graph_links = [0, 1, 2]\<rparr>"

definition branchDepths :: Store where
  \<comment> \<open>the branch graph after \<open>computeDepths\<close>: the sink C has moved from column 1 to
      column 2\<close>
  "branchDepths = \<lparr>nodeStore =
     [\<lparr>node_id = ''A'', node_label = ''A'', node_value = 0, node_depth = 0,
        node_x = 0, node_y = 0, node_width = 0, node_height = 0,
        sourceLinks = [0, 1], targetLinks = []\<rparr>,
      \<lparr>node_id = ''B'', node_label = ''B'', node_value = 0, node_depth = 1,
        node_x = 0, node_y = 0, node_width = 0, node_height = 0,
        sourceLinks = [2], targetLinks = [0]\<rparr>,
      \<lparr>node_id = ''C'', node_label = ''C'', node_value = 0, node_depth = 2,
        node_x = 0, node_y = 0, node_width = 0, node_height = 0,
        sourceLinks = [], targetLinks = [1]\<rparr>,
      \<lparr>node_id = ''D'', node_label = ''D'', node_value = 0, node_depth = 2,
        node_x = 0, node_y = 0, node_width = 0, node_height = 0,
        sourceLinks = [], targetLinks = [2]\<rparr>],
     linkStore =
     [\<lparr>link_source = 0, link_target = 1, link_value = 3, link_width = 0,
        link_sy = 0, link_ty = 0\<rparr>,
      \<lparr>link_source = 0, link_target = 2, link_value = 1, link_width = 0,
        link_sy = 0, link_ty = 0\<rparr>,
      \<lparr>link_source = 1, link_target = 3, link_value = 2, link_width = 0,
        link_sy = 0, link_ty = 0\<rparr>]\<rparr>"

definition branchValues :: Store where
  \<comment> \<open>after \<open>computeNodeValues\<close>\<close>
  "branchValues = \<lparr>nodeStore =
     [\<lparr>node_id = ''A'', node_label = ''A'', node_value = 4, node_depth = 0,
        node_x = 0, node_y = 0, node_width = 0, node_height = 0,
        sourceLinks = [0, 1], targetLinks = []\<rparr>,
      \<lparr>node_id = ''B'', node_label = ''B'', node_value = 3, node_depth = 1,
        node_x = 0, node_y = 0, node_width = 0, node_height = 0,
        sourceLinks = [2], targetLinks = [0]\<rparr>,
      \<lparr>node_id = ''C'', node_label = ''C'', node_value = 1, node_depth = 2,
        node_x = 0, node_y = 0, node_width = 0, node_height = 0,
        sourceLinks = [], targetLinks = [1]\<rparr>,
      \<lparr>node_id = ''D'', node_label = ''D'', node_value = 2, node_depth = 2,
        node_x = 0, node_y = 0, node_width = 0, node_height = 0,
        sourceLinks = [], targetLinks = [2]\<rparr>],
     linkStore =
     [\<lparr>link_source = 0, link_target = 1, link_value = 3, link_width = 0,
        link_sy = 0, link_ty = 0\<rparr>,
      \<lparr>link_source = 0, link_target = 2, link_value = 1, link_width = 0,
        link_sy = 0, link_ty = 0\<rparr>,
      \<lparr>link_source = 1, link_target = 3, link_value = 2, link_width = 0,
        link_sy = 0, link_ty = 0\<rparr>]\<rparr>"

definition branchX :: Store where
  \<comment> \<open>after \<open>positionNodesX\<close>\<close>
  "branchX = \<lparr>nodeStore =
     [\<lparr>node_id = ''A'', node_label = ''A'', node_value = 4, node_depth = 0,
        node_x = 20, node_y = 0, node_width = 18, node_height = 0,
        sourceLinks = [0, 1], targetLinks = []\<rparr>,
      \<lparr>node_id = ''B'', node_label = ''B'', node_value = 3, node_depth = 1,
        node_x = 341, node_y = 0, node_width = 18, node_height = 0,
        sourceLinks = [2], targetLinks = [0]\<rparr>,
      \<lparr>node_id = ''C'', node_label = ''C'', node_value = 1, node_depth = 2,
        node_x = 662, node_y = 0, node_width = 18, node_height = 0,
        sourceLinks = [], targetLinks = [1]\<rparr>,
      \<lparr>node_id = ''D'', node_label = ''D'', node_value = 2, node_depth = 2,
        node_x = 662, node_y = 0, node_width = 18, node_height = 0,
        sourceLinks = [], targetLinks = [2]\<rparr>],
     linkStore =
     [\<lparr>link_source = 0, link_target = 1, link_value = 3, link_width = 0,
        link_sy = 0, link_ty = 0\<rparr>,
      \<lparr>link_source = 0, link_target = 2, link_value = 1, link_width = 0,
        link_sy = 0, link_ty = 0\<rparr>,
      \<lparr>link_source = 1, link_target = 3, link_value = 2, link_width = 0,
        link_sy = 0, link_ty = 0\<rparr>]\<rparr>"

definition branchAt :: "real \<Rightarrow> real \<Rightarrow> real \<Rightarrow> real \<Rightarrow> Store" where
  \<comment> \<open>the branch graph from \<open>initializeNodeY\<close> on, with the nodes at the given y\<close>
  "branchAt ya yb yc yd = \<lparr>nodeStore =
     [\<lparr>node_id = ''A'', node_label = ''A'', node_value = 4, node_depth = 0,
        node_x = 20, node_y = ya, node_width = 18, node_height = 460,
        sourceLinks = [0, 1], targetLinks = []\<rparr>,
      \<lparr>node_id = ''B'', node_label = ''B'', node_value = 3, node_depth = 1,
        node_x = 341, node_y = yb, node_width = 18, node_height = 345,
        sourceLinks = [2], targetLinks = [0]\<rparr>,
      \<lparr>node_id = ''C'', node_label = ''C'', node_value = 1, node_depth = 2,
        node_x = 662, node_y = yc, node_width = 18, node_height = 115,
        sourceLinks = [], targetLinks = [1]\<rparr>,
      \<lparr>node_id = ''D'', node_label = ''D'', node_value = 2, node_depth = 2,
        node_x = 662, node_y = yd, node_width = 18, node_height = 230,
        sourceLinks = [], targetLinks = [2]\<rparr>],
     linkStore =
     [\<lparr>link_source = 0, link_target = 1, link_value = 3, link_width = 0,
        link_sy = 0, link_ty = 0\<rparr>,
      \<lparr>link_source = 0, link_target = 2, link_value = 1, link_width = 0,
        link_sy = 0, link_ty = 0\<rparr>,
      \<lparr>link_source = 1, link_target = 3, link_value = 2, link_width = 0,
        link_sy = 0, link_ty = 0\<rparr>]\<rparr>"

definition branchLayout :: Store where
  \<comment> \<open>the branch graph after \<open>compute\<close> with two iterations\<close>
  "branchLayout = \<lparr>nodeStore =
     [\<lparr>node_id = ''A'', node_label = ''A'', node_value = 4, node_depth = 0,
        node_x = 20, node_y = 20, node_width = 18, node_height = 460,
        sourceLinks = [0, 1], targetLinks = []\<rparr>,
      \<lparr>node_id = ''B'', node_label = ''B'', node_value = 3, node_depth = 1,
        node_x = 341, node_y = 67, node_width = 18, node_height = 345,
        sourceLinks = [2], targetLinks = [0]\<rparr>,
      \<lparr>node_id = ''C'', node_label = ''C'', node_value = 1, node_depth = 2,
        node_x = 662, node_y = 365, node_width = 18, node_height = 115,
        sourceLinks = [], targetLinks = [1]\<rparr>,
      \<lparr>node_id = ''D'', node_label = ''D'', node_value = 2, node_depth = 2,
        node_x = 662, node_y = 121, node_width = 18, node_height = 230,
        sourceLinks = [], targetLinks = [2]\<rparr>],
     linkStore =
     [\<lparr>link_source = 0, link_target = 1, link_value = 3, link_width = 345,
        link_sy = 0, link_ty = 0\<rparr>,
      \<lparr>link_source = 0, link_target = 2, link_value = 1, link_width = 115,
        link_sy = 345, link_ty = 0\<rparr>,
      \<lparr>link_source = 1, link_target = 3, link_value = 2, link_width = 345,
        link_sy = 0, link_ty = 0\<rparr>]\<rparr>"

section \<open>Frames\<close>

definition dropY :: "Store \<Rightarrow> SankeyNode list \<times> SankeyLink list" where
  \<comment> \<open>the store without the nodes' y coordinates\<close>
  "dropY s = (map (\<lambda>n. n\<lparr>node_y := 0\<rparr>) (nodeStore s), linkStore s)"

definition nodeKey :: "SankeyNode \<Rightarrow> string \<times> string \<times> real \<times> nat \<times> real \<times> real \<times> real \<times> real
    \<times> nat multiset \<times> nat multiset" where
  \<comment> \<open>a node without the order of its link arrays\<close>
  "nodeKey n = (node_id n, node_label n, node_value n, node_depth n, node_x n, node_y n,
     node_width n, node_height n, mset (sourceLinks n), mset (targetLinks n))"

definition linkKey :: "SankeyLink \<Rightarrow> nat \<times> nat \<times> real" where
  \<comment> \<open>a link without its computed geometry\<close>
  "linkKey k = (link_source k, link_target k, link_value k)"

definition fixedPart :: "Store \<Rightarrow> _ list \<times> _ list" where
  "fixedPart s = (map nodeKey (nodeStore s), map linkKey (linkStore s))"

definition initialPlacement :: "SankeyConfig \<Rightarrow> nat list \<Rightarrow> Store \<Rightarrow> Store" where
  \<comment> \<open>the first four stages of \<open>compute\<close>\<close>
  "initialPlacement cfg ns s =
     initializeNodeY cfg ns (positionNodesX cfg ns (computeNodeValues ns (computeDepths cfg ns s)))"

section \<open>The global scale in the words of the specification\<close>

definition scaleCandidates :: "SankeyConfig \<Rightarrow> Store \<Rightarrow> nat list list \<Rightarrow> real list" where
  \<comment> \<open>per column with positive total value:
      (innerHeight - max(0, (count - 1) * nodePadding)) / totalValue\<close>
  "scaleCandidates cfg s columns =
     map (\<lambda>c. (cfg_height cfg - pad_top (padding cfg) - pad_bottom (padding cfg)
                 - max 0 ((real (length c) - 1) * nodePadding cfg))
               / (\<Sum>r\<leftarrow>c. node_value (nodeAt s r)))
       (filter (\<lambda>c. 0 < (\<Sum>r\<leftarrow>c. node_value (nodeAt s r))) columns)"

definition specScale :: "SankeyConfig \<Rightarrow> Store \<Rightarrow> nat list \<Rightarrow> real" where
  \<comment> \<open>the minimum candidate over the depth columns, 0 when there is none\<close>
  "specScale cfg s ns =
     (let cands = scaleCandidates cfg s (getColumns s ns)
      in if cands = [] then 0 else Min (set cands))"

definition statedCandidates :: "SankeyConfig \<Rightarrow> Store \<Rightarrow> nat list list \<Rightarrow> real list" where
  \<comment> \<open>the candidates as the specification words them, without the clamp at 0:
      (innerHeight - (count - 1) * nodePadding) / totalValue\<close>
  "statedCandidates cfg s columns =
     map (\<lambda>c. (cfg_height cfg - pad_top (padding cfg) - pad_bottom (padding cfg)
                 - (real (length c) - 1) * nodePadding cfg)
               / (\<Sum>r\<leftarrow>c. node_value (nodeAt s r)))
       (filter (\<lambda>c. 0 < (\<Sum>r\<leftarrow>c. node_value (nodeAt s r))) columns)"

definition statedScale :: "SankeyConfig \<Rightarrow> Store \<Rightarrow> nat list \<Rightarrow> real" where
  "statedScale cfg s ns =
     (let cands = statedCandidates cfg s (getColumns s ns)
      in if cands = [] then 0 else Min (set cands))"

section \<open>Well-formed graphs and tilings\<close>

definition wfGraph :: "SankeyGraph \<Rightarrow> Store \<Rightarrow> bool" where
  \<comment> \<open>The graphs of the data model, as \<open>TabularTransform\<close> and the tests' \<open>makeLink\<close>
      build them: the nodes are distinct objects with unique ids, a node's
      \<open>sourceLinks\<close> are links that start at it, its \<open>targetLinks\<close> are links that end at
      it, no link is listed twice, and every link joins two nodes of the graph and is
      listed at both of them.\<close>
  "wfGraph g s \<longleftrightarrow>
     distinct (graph_nodes g)
   \<and> (\<forall>r\<in>set (graph_nodes g). r < length (nodeStore s))
   \<and> inj_on (\<lambda>r. node_id (nodeAt s r)) (set (graph_nodes g))
   \<and> (\<forall>r\<in>set (graph_nodes g).
         distinct (sourceLinks (nodeAt s r)) \<and> distinct (targetLinks (nodeAt s r))
       \<and> (\<forall>l\<in>set (sourceLinks (nodeAt s r)).
             l < length (linkStore s) \<and> link_source (linkAt s l) = r
           \<and> link_target (linkAt s l) \<in> set (graph_nodes g)
           \<and> l \<in> set (targetLinks (nodeAt s (link_target (linkAt s l)))))
       \<and> (\<forall>l\<in>set (targetLinks (nodeAt s r)).
             l < length (linkStore s) \<and> link_target (linkAt s l) = r
           \<and> link_source (linkAt s l) \<in> set (graph_nodes g)
           \<and> l \<in> set (sourceLinks (nodeAt s (link_source (linkAt s l))))))"

fun tiled :: "(nat \<Rightarrow> real) \<Rightarrow> (nat \<Rightarrow> real) \<Rightarrow> real \<Rightarrow> nat list \<Rightarrow> bool" where
  \<comment> \<open>the links of the list lie one after the other from offset \<open>y\<close> on: each starts
      where the one before it ends\<close>
  "tiled off wid y [] = True"
| "tiled off wid y (l # ls) = (off l = y \<and> tiled off wid (y + wid l) ls)"

section \<open>Vertical separation\<close>

definition separated :: "SankeyConfig \<Rightarrow> Store \<Rightarrow> nat \<Rightarrow> nat \<Rightarrow> bool" where
  \<comment> \<open>node \<open>a\<close> ends at least \<open>nodePadding\<close> above the top of node \<open>b\<close>\<close>
  "separated cfg s a b \<longleftrightarrow>
     node_y (nodeAt s a) + node_height (nodeAt s a) + nodePadding cfg \<le> node_y (nodeAt s b)"



section \<open>Graphs closed under their links, layers of the traversal\<close>

definition closedGraph :: "nat list \<Rightarrow> Store \<Rightarrow> bool" where
  \<comment> \<open>the nodes have unique ids and every outgoing link of a node of the graph ends at
      a node of the graph\<close>
  "closedGraph ns s \<longleftrightarrow>
     (\<forall>r\<in>set ns. r < length (nodeStore s))
   \<and> inj_on (\<lambda>r. node_id (nodeAt s r)) (set ns)
   \<and> (\<forall>r\<in>set ns. \<forall>l\<in>set (sourceLinks (nodeAt s r)). link_target (linkAt s l) \<in> set ns)"

definition pusher :: "nat list \<Rightarrow> Store \<Rightarrow> string set \<Rightarrow> nat \<Rightarrow> bool" where
  \<comment> \<open>a visited node of depth \<open>k\<close> that has outgoing links\<close>
  "pusher ns s visited k \<longleftrightarrow>
     (\<exists>p\<in>set ns. node_id (nodeAt s p) \<in> visited \<and> node_depth (nodeAt s p) = k
                \<and> sourceLinks (nodeAt s p) \<noteq> [])"

definition layered :: "nat list \<Rightarrow> Store \<Rightarrow> string set \<Rightarrow> bool" where
  \<comment> \<open>below every visited node of positive depth there is a visited node one column to
      the left that has outgoing links\<close>
  "layered ns s visited \<longleftrightarrow>
     (\<forall>r\<in>set ns. node_id (nodeAt s r) \<in> visited \<longrightarrow>
        (\<forall>k. node_depth (nodeAt s r) = Suc k \<longrightarrow> pusher ns s visited k))"

definition columnsFilled :: "nat list \<Rightarrow> Store \<Rightarrow> bool" where
  \<comment> \<open>every column up to the maximal depth holds a node\<close>
  "columnsFilled ns s \<longleftrightarrow> (\<forall>k\<le>maxDepthOf s ns. \<exists>r\<in>set ns. node_depth (nodeAt s r) = k)"

definition partialChainGraph :: SankeyGraph where
  \<comment> \<open>the chain with the node B left out of the node list; the links still pass through B\<close>
  "partialChainGraph = \<lparr>graph_nodes = [0, 2], graph_links = [0, 1]\<rparr>"

definition negativePadding :: SankeyConfig where
  \<comment> \<open>the default configuration with a negative node padding\<close>
  "negativePadding = DEFAULT_CONFIG\<lparr>nodePadding := - 10\<rparr>"









definition tightDepths :: Store where
  \<comment> \<open>after \<open>computeDepths\<close>\<close>
  "tightDepths = \<lparr>nodeStore =
     [\<lparr>node_id = ''A'', node_label = ''A'', node_value = 0, node_depth = 0,
        node_x = 0, node_y = 0, node_width = 0, node_height = 0,
        sourceLinks = [0], targetLinks = [1]\<rparr>,
      \<lparr>node_id = ''B'', node_label = ''B'', node_value = 0, node_depth = 0,
        node_x = 0, node_y = 0, node_width = 0, node_height = 0,
        sourceLinks = [1], targetLinks = [0]\<rparr>],
     linkStore =
     [\<lparr>link_source = 0, link_target = 1, link_value = 4, link_width = 0,
        link_sy = 0, link_ty = 0\<rparr>,
      \<lparr>link_source = 1, link_target = 0, link_value = 4, link_width = 0,
        link_sy = 0, link_ty = 0\<rparr>]\<rparr>"

definition tightValues :: Store where
  \<comment> \<open>after \<open>computeNodeValues\<close>\<close>
  "tightValues = \<lparr>nodeStore =
     [\<lparr>node_id = ''A'', node_label = ''A'', node_value = 4, node_depth = 0,
        node_x = 0, node_y = 0, node_width = 0, node_height = 0,
        sourceLinks = [0], targetLinks = [1]\<rparr>,
      \<lparr>node_id = ''B'', node_label = ''B'', node_value = 4, node_depth = 0,
        node_x = 0, node_y = 0, node_width = 0, node_height = 0,
        sourceLinks = [1], targetLinks = [0]\<rparr>],
     linkStore =
     [\<lparr>link_source = 0, link_target = 1, link_value = 4, link_width = 0,
        link_sy = 0, link_ty = 0\<rparr>,
      \<lparr>link_source = 1, link_target = 0, link_value = 4, link_width = 0,
        link_sy = 0, link_ty = 0\<rparr>]\<rparr>"

definition tightX :: Store where
  \<comment> \<open>after \<open>positionNodesX\<close>\<close>
  "tightX = \<lparr>nodeStore =
     [\<lparr>node_id = ''A'', node_label = ''A'', node_value = 4, node_depth = 0,
        node_x = 20, node_y = 0, node_width = 18, node_height = 0,
        sourceLinks = [0], targetLinks = [1]\<rparr>,
      \<lparr>node_id = ''B'', node_label = ''B'', node_value = 4, node_depth = 0,
        node_x = 20, node_y = 0, node_width = 18, node_height = 0,
        sourceLinks = [1], targetLinks = [0]\<rparr>],
     linkStore =
     [\<lparr>link_source = 0, link_target = 1, link_value = 4, link_width = 0,
        link_sy = 0, link_ty = 0\<rparr>,
      \<lparr>link_source = 1, link_target = 0, link_value = 4, link_width = 0,
        link_sy = 0, link_ty = 0\<rparr>]\<rparr>"

definition tightAt :: "real \<Rightarrow> real \<Rightarrow>  Store" where
  \<comment> \<open>from \<open>initializeNodeY\<close> on, with the nodes at the given y\<close>
  "tightAt ya yb = \<lparr>nodeStore =
     [\<lparr>node_id = ''A'', node_label = ''A'', node_value = 4, node_depth = 0,
        node_x = 20, node_y = ya, node_width = 18, node_height = 230,
        sourceLinks = [0], targetLinks = [1]\<rparr>,
      \<lparr>node_id = ''B'', node_label = ''B'', node_value = 4, node_depth = 0,
        node_x = 20, node_y = yb, node_width = 18, node_height = 230,
        sourceLinks = [1], targetLinks = [0]\<rparr>],
     linkStore =
     [\<lparr>link_source = 0, link_target = 1, link_value = 4, link_width = 0,
        link_sy = 0, link_ty = 0\<rparr>,
      \<lparr>link_source = 1, link_target = 0, link_value = 4, link_width = 0,
        link_sy = 0, link_ty = 0\<rparr>]\<rparr>"

definition tightLayout :: Store where
  \<comment> \<open>after \<open>compute\<close>\<close>
  "tightLayout = \<lparr>nodeStore =
     [\<lparr>node_id = ''A'', node_label = ''A'', node_value = 4, node_depth = 0,
        node_x = 20, node_y = 20, node_width = 18, node_height = 230,
        sourceLinks = [0], targetLinks = [1]\<rparr>,
      \<lparr>node_id = ''B'', node_label = ''B'', node_value = 4, node_depth = 0,
        node_x = 20, node_y = 240, node_width = 18, node_height = 230,
        sourceLinks = [1], targetLinks = [0]\<rparr>],
     linkStore =
     [\<lparr>link_source = 0, link_target = 1, link_value = 4, link_width = 230,
        link_sy = 0, link_ty = 0\<rparr>,
      \<lparr>link_source = 1, link_target = 0, link_value = 4, link_width = 230,
        link_sy = 0, link_ty = 0\<rparr>]\<rparr>"

section \<open>Termination of the loops\<close>

lemma allIds_alt: "allIds s = insert (node_id blankNode) (set (map node_id (nodeStore s)))"
  by (auto simp: allIds_def)

lemma allIds_setDepth: "allIds (setDepth r d s) = allIds s"
proof (cases "r < length (nodeStore s)")
  case True
  then have "(map node_id (nodeStore s))[r := node_id (nodeStore s ! r)] = map node_id (nodeStore s)"
    by (metis list_update_id nth_map)
  with True show ?thesis
    by (simp add: allIds_alt setDepth_def updNode_def nodeAt_def map_update)
next
  case False
  then have "length (nodeStore s) \<le> r" by simp
  then show ?thesis
    by (simp add: allIds_def setDepth_def updNode_def list_update_beyond)
qed

lemma node_id_in_allIds: "node_id (nodeAt s r) \<in> allIds s"
  by (auto simp: allIds_def nodeAt_def)

lemma visitLayer_props:
  "visitLayer d cur (s, v, nxt) = (s', v', nxt') \<Longrightarrow>
     allIds s' = allIds s \<and> v \<subseteq> v' \<and> v' \<subseteq> v \<union> allIds s \<and> (v' = v \<longrightarrow> nxt' = nxt)"
proof (induction cur arbitrary: s v nxt)
  case Nil
  then show ?case by simp
next
  case (Cons r rs)
  show ?case
  proof (cases "node_id (nodeAt s r) \<in> v")
    case True
    with Cons.prems have "visitLayer d rs (s, v, nxt) = (s', v', nxt')" by simp
    from Cons.IH[OF this] show ?thesis .
  next
    case False
    let ?v = "insert (node_id (nodeAt s r)) v"
    let ?s = "setDepth r d s"
    from Cons.prems False
    have "visitLayer d rs (?s, ?v, nxt @ pushTargets ?s ?v (sourceLinks (nodeAt ?s r))) = (s', v', nxt')"
      by (simp add: Let_def)
    from Cons.IH[OF this]
    have *: "allIds s' = allIds ?s" "?v \<subseteq> v'" "v' \<subseteq> ?v \<union> allIds ?s" by auto
    with False node_id_in_allIds[of s r] show ?thesis
      by (auto simp: allIds_setDepth)
  qed
qed

lemma bfs_term_step:
  assumes "current \<noteq> []" and vl: "visitLayer depth current (s, visited, []) = (s', visited', nxt)"
  shows "card (allIds s' - visited') < card (allIds s - visited) \<or>
         (card (allIds s' - visited') = card (allIds s - visited) \<and> length nxt < length current)"
proof -
  note p = visitLayer_props[OF vl]
  have fin: "finite (allIds s)" by (simp add: allIds_def)
  show ?thesis
  proof (cases "visited' = visited")
    case True
    with p assms show ?thesis by simp
  next
    case False
    with p have "allIds s - visited' \<subset> allIds s - visited" by auto
    then have "card (allIds s - visited') < card (allIds s - visited)"
      using fin by (intro psubset_card_mono) auto
    with p show ?thesis by simp
  qed
qed

termination bfs
  apply (relation "inv_image (less_than <*lex*> less_than)
          (\<lambda>(s, v, c, d). (card (allIds s - v), length c))")
   apply (intro wf_inv_image wf_lex_prod wf_less_than)
  apply clarsimp
  using bfs_term_step apply metis
  done

termination relaxLoop
  apply (relation "measure (\<lambda>(cfg, i, st). nat \<lceil>iterations cfg\<rceil> - i)")
   apply simp
  apply clarsimp
  apply linarith
  done

declare bfs.simps [simp del]

declare relaxLoop.simps [simp del]

section \<open>JourneyAnalyzer: drop-off\<close>

lemma linkSum_sum_list: "linkSum s ls = (\<Sum>l\<leftarrow>ls. link_value (linkAt s l))"
proof -
  have "foldl (\<lambda>acc l. acc + link_value (linkAt s l)) a ls = a + (\<Sum>l\<leftarrow>ls. link_value (linkAt s l))" for a
    by (induction ls arbitrary: a) simp_all
  then show ?thesis by (simp add: linkSum_def)
qed

text \<open>
  C9, as the code has it: inflow and outflow of an entry of \<open>analyze\<close> are the sums of
  the node's incoming and outgoing link values, and \<open>dropOff\<close> is inflow minus outflow
  for a node that has both incoming and outgoing links; for a source (no incoming link)
  and for a sink (no outgoing link) \<open>dropOff\<close> is 0.
\<close>

theorem analyze_dropOff:
  assumes "i < length (graph_nodes g)"
  shows "inflow (analyze g s ! i)
           = (\<Sum>l\<leftarrow>targetLinks (nodeAt s (graph_nodes g ! i)). link_value (linkAt s l))
       \<and> outflow (analyze g s ! i)
           = (\<Sum>l\<leftarrow>sourceLinks (nodeAt s (graph_nodes g ! i)). link_value (linkAt s l))
       \<and> isSource (analyze g s ! i) = (targetLinks (nodeAt s (graph_nodes g ! i)) = [])
       \<and> isSink (analyze g s ! i) = (sourceLinks (nodeAt s (graph_nodes g ! i)) = [])
       \<and> dropOff (analyze g s ! i)
           = (if isSource (analyze g s ! i) \<or> isSink (analyze g s ! i) then 0
              else inflow (analyze g s ! i) - outflow (analyze g s ! i))"
  using assms by (simp add: analyze_def analyzeNode_def Let_def linkSum_sum_list)

theorem analyze_dropOff_witness:
  "(1::nat) < length (graph_nodes chainGraph)
   \<and> inflow (analyze chainGraph chainStore ! 1) = 10
   \<and> outflow (analyze chainGraph chainStore ! 1) = 7
   \<and> dropOff (analyze chainGraph chainStore ! 1) = 3"
  using analyze_dropOff [of 1 chainGraph chainStore]
  by (simp add: chainGraph_def chainStore_def makeNode_def makeLink_def nodeAt_def linkAt_def)

text \<open>
  C9 as the spec states it fails at the source A of the chain: its inflow is 0, its
  outflow is 10, and its \<open>dropOff\<close> is 0, not -10.
\<close>

theorem analyze_dropOff_counterexample:
  "dropOff (analyze chainGraph chainStore ! 0)
     \<noteq> inflow (analyze chainGraph chainStore ! 0) - outflow (analyze chainGraph chainStore ! 0)"
  by (simp add: analyze_def analyzeNode_def Let_def linkSum_def chainGraph_def chainStore_def
      makeNode_def makeLink_def nodeAt_def linkAt_def)

section \<open>Relaxation: iteration count and damping\<close>

lemma relaxLoop_from:
  assumes "iterations cfg = real n" and "i \<le> n"
  shows "relaxLoop cfg i st = iterateWith cfg (map (damping cfg) [i ..< n]) st"
  using assms(2)
proof (induction "n - i" arbitrary: i st)
  case 0
  then have "i = n" by simp
  with assms(1) show ?case by (subst relaxLoop.simps) simp
next
  case (Suc k)
  then have lt: "i < n" and k: "k = n - Suc i" and le: "Suc i \<le> n" by auto
  have step: "relaxLoop cfg (Suc i) st' = iterateWith cfg (map (damping cfg) [Suc i ..< n]) st'" for st'
    using Suc.hyps(1)[OF k le] .
  have "[i ..< n] = i # [Suc i ..< n]" using lt by (simp add: upt_conv_Cons)
  moreover have "real i < iterations cfg" using lt assms(1) by simp
  ultimately show ?case
    by (subst relaxLoop.simps) (simp add: step split: sum.splits)
qed

section \<open>Store lemmas\<close>

lemma length_nodeStore_updNode [simp]: "length (nodeStore (updNode r f s)) = length (nodeStore s)"
  by (simp add: updNode_def)

lemma linkStore_updNode [simp]: "linkStore (updNode r f s) = linkStore s"
  by (simp add: updNode_def)

lemma nodeStore_updLink [simp]: "nodeStore (updLink l f s) = nodeStore s"
  by (simp add: updLink_def)

lemma length_linkStore_updLink [simp]: "length (linkStore (updLink l f s)) = length (linkStore s)"
  by (simp add: updLink_def)

lemma nodeAt_updNode:
  "nodeAt (updNode r f s) r' =
     (if r' = r \<and> r < length (nodeStore s) then f (nodeAt s r) else nodeAt s r')"
  by (simp add: nodeAt_def updNode_def)

lemma linkAt_updNode [simp]: "linkAt (updNode r f s) l = linkAt s l"
  by (simp add: linkAt_def)

lemma nodeAt_updLink [simp]: "nodeAt (updLink l f s) r = nodeAt s r"
  by (simp add: nodeAt_def)

lemma linkAt_updLink:
  "linkAt (updLink l f s) l' =
     (if l' = l \<and> l < length (linkStore s) then f (linkAt s l) else linkAt s l')"
  by (simp add: linkAt_def updLink_def)

lemma map_nodeStore_updNode:
  assumes "\<And>n. g (f n) = g n"
  shows "map g (nodeStore (updNode r f s)) = map g (nodeStore s)"
proof (cases "r < length (nodeStore s)")
  case True
  then have "(map g (nodeStore s))[r := g (nodeStore s ! r)] = map g (nodeStore s)"
    by (metis list_update_id nth_map)
  with True show ?thesis by (simp add: updNode_def nodeAt_def map_update assms)
next
  case False
  then have "length (nodeStore s) \<le> r" by simp
  then show ?thesis by (simp add: updNode_def list_update_beyond)
qed

lemma map_linkStore_updLink:
  assumes "\<And>k. g (f k) = g k"
  shows "map g (linkStore (updLink l f s)) = map g (linkStore s)"
proof (cases "l < length (linkStore s)")
  case True
  then have "(map g (linkStore s))[l := g (linkStore s ! l)] = map g (linkStore s)"
    by (metis list_update_id nth_map)
  with True show ?thesis by (simp add: updLink_def linkAt_def map_update assms)
next
  case False
  then have "length (linkStore s) \<le> l" by simp
  then show ?thesis by (simp add: updLink_def list_update_beyond)
qed

subsection \<open>Relaxation and collision resolution write only y\<close>

lemma dropY_updNode:
  assumes "\<And>n. (f n)\<lparr>node_y := 0\<rparr> = n\<lparr>node_y := 0\<rparr>"
  shows "dropY (updNode r f s) = dropY s"
  using map_nodeStore_updNode[of "\<lambda>n. n\<lparr>node_y := 0\<rparr>" f r s] assms
  by (simp add: dropY_def)

lemma dropY_nodeAt:
  assumes "dropY s' = dropY s"
  shows "(nodeAt s' r)\<lparr>node_y := 0\<rparr> = (nodeAt s r)\<lparr>node_y := 0\<rparr>"
proof -
  from assms have m: "map (\<lambda>n. n\<lparr>node_y := 0\<rparr>) (nodeStore s') = map (\<lambda>n. n\<lparr>node_y := 0\<rparr>) (nodeStore s)"
    by (simp add: dropY_def)
  then have len: "length (nodeStore s') = length (nodeStore s)" by (metis length_map)
  show ?thesis
  proof (cases "r < length (nodeStore s)")
    case True
    with m len show ?thesis by (metis nodeAt_def nth_map)
  next
    case False
    with len show ?thesis by (simp add: nodeAt_def)
  qed
qed

lemma dropY_fields:
  assumes "dropY s' = dropY s"
  shows "node_id (nodeAt s' r) = node_id (nodeAt s r)"
    and "node_label (nodeAt s' r) = node_label (nodeAt s r)"
    and "node_value (nodeAt s' r) = node_value (nodeAt s r)"
    and "node_depth (nodeAt s' r) = node_depth (nodeAt s r)"
    and "node_x (nodeAt s' r) = node_x (nodeAt s r)"
    and "node_width (nodeAt s' r) = node_width (nodeAt s r)"
    and "node_height (nodeAt s' r) = node_height (nodeAt s r)"
    and "sourceLinks (nodeAt s' r) = sourceLinks (nodeAt s r)"
    and "targetLinks (nodeAt s' r) = targetLinks (nodeAt s r)"
    and "linkAt s' l = linkAt s l"
    and "length (nodeStore s') = length (nodeStore s)"
proof -
  note e = dropY_nodeAt[OF assms, of r]
  show "node_id (nodeAt s' r) = node_id (nodeAt s r)"
    using arg_cong[OF e, of node_id] by simp
  show "node_label (nodeAt s' r) = node_label (nodeAt s r)"
    using arg_cong[OF e, of node_label] by simp
  show "node_value (nodeAt s' r) = node_value (nodeAt s r)"
    using arg_cong[OF e, of node_value] by simp
  show "node_depth (nodeAt s' r) = node_depth (nodeAt s r)"
    using arg_cong[OF e, of node_depth] by simp
  show "node_x (nodeAt s' r) = node_x (nodeAt s r)"
    using arg_cong[OF e, of node_x] by simp
  show "node_width (nodeAt s' r) = node_width (nodeAt s r)"
    using arg_cong[OF e, of node_width] by simp
  show "node_height (nodeAt s' r) = node_height (nodeAt s r)"
    using arg_cong[OF e, of node_height] by simp
  show "sourceLinks (nodeAt s' r) = sourceLinks (nodeAt s r)"
    using arg_cong[OF e, of sourceLinks] by simp
  show "targetLinks (nodeAt s' r) = targetLinks (nodeAt s r)"
    using arg_cong[OF e, of targetLinks] by simp
  from assms show "linkAt s' l = linkAt s l" by (simp add: dropY_def linkAt_def)
  from assms show "length (nodeStore s') = length (nodeStore s)"
    by (metis dropY_def length_map prod.inject)
qed

lemma dropY_moveNode: "dropY (moveNode dir d r s) = dropY s"
  by (simp add: moveNode_def Let_def dropY_updNode)

lemma dropY_fold_moveNode: "dropY (fold (moveNode dir d) col s) = dropY s"
  by (induction col arbitrary: s) (simp_all add: dropY_moveNode)

lemma dropY_pushDown: "dropY (pushDown cfg col y s) = dropY s"
  by (induction col arbitrary: y s) (simp_all add: Let_def dropY_updNode)

lemma dropY_pushUp: "dropY (pushUp cfg col k s) = dropY s"
  by (induction k arbitrary: s) (simp_all add: Let_def dropY_updNode)

lemma dropY_resolveCollisions:
  "resolveCollisions cfg col s = Inr (col', s') \<Longrightarrow> dropY s' = dropY s"
  by (auto simp: resolveCollisions_def Let_def dropY_pushDown dropY_pushUp dropY_updNode
      split: if_splits)

lemma dropY_relaxColumn:
  "relaxColumn cfg dir d c (cols, s) = Inr (cols', s') \<Longrightarrow> dropY s' = dropY s"
  by (auto simp: relaxColumn_def Let_def dropY_fold_moveNode
      split: sum.splits dest!: dropY_resolveCollisions)

lemma dropY_relaxPass:
  "relaxPass cfg dir d cs (cols, s) = Inr (cols', s') \<Longrightarrow> dropY s' = dropY s"
proof (induction cs arbitrary: cols s)
  case Nil
  then show ?case by simp
next
  case (Cons c cs)
  from Cons.prems obtain cols1 s1 where
    a: "relaxColumn cfg dir d c (cols, s) = Inr (cols1, s1)" and
    b: "relaxPass cfg dir d cs (cols1, s1) = Inr (cols', s')"
    by (auto split: sum.splits)
  from Cons.IH[OF b] dropY_relaxColumn[OF a] show ?case by simp
qed

lemma dropY_relaxIteration:
  "relaxIteration cfg d (cols, s) = Inr (cols', s') \<Longrightarrow> dropY s' = dropY s"
  by (auto simp: relaxIteration_def split: sum.splits dest!: dropY_relaxPass)

lemma dropY_relaxLoop:
  "relaxLoop cfg i st = Inr st' \<Longrightarrow> dropY (snd st') = dropY (snd st)"
proof (induction cfg i st rule: relaxLoop.induct)
  case (1 cfg i st)
  show ?case
  proof (cases "real i < iterations cfg")
    case True
    with "1.prems" obtain st1 where
      a: "relaxIteration cfg (damping cfg i) st = Inr st1" and
      b: "relaxLoop cfg (Suc i) st1 = Inr st'"
      by (subst (asm) relaxLoop.simps) (auto split: sum.splits)
    from "1.IH"[OF True a b] dropY_relaxIteration[of cfg _ "fst st" "snd st" "fst st1" "snd st1"] a
    show ?thesis by simp
  next
    case False
    with "1.prems" show ?thesis by (subst (asm) relaxLoop.simps) simp
  qed
qed

lemma dropY_relaxNodePositions:
  "relaxNodePositions cfg ns s = Inr s' \<Longrightarrow> dropY s' = dropY s"
  by (auto simp: relaxNodePositions_def split: sum.splits dest!: dropY_relaxLoop)

section \<open>What the later stages leave unchanged\<close>

lemma fixedPart_updNode:
  assumes "\<And>n. nodeKey (f n) = nodeKey n"
  shows "fixedPart (updNode r f s) = fixedPart s"
  using map_nodeStore_updNode[of nodeKey f r s] assms by (simp add: fixedPart_def)

lemma fixedPart_updLink:
  assumes "\<And>k. linkKey (f k) = linkKey k"
  shows "fixedPart (updLink l f s) = fixedPart s"
  using map_linkStore_updLink[of linkKey f l s] assms by (simp add: fixedPart_def)

lemma fixedPart_sortLinks: "fixedPart (sortLinks r s) = fixedPart s"
  by (simp add: sortLinks_def Let_def fixedPart_updNode nodeKey_def)

lemma fixedPart_fold_sortLinks: "fixedPart (fold sortLinks col s) = fixedPart s"
  by (induction col arbitrary: s) (simp_all add: fixedPart_sortLinks)

lemma fixedPart_sourceOffsets: "fixedPart (sourceOffsets tot r ls sy s) = fixedPart s"
  by (induction ls arbitrary: sy s) (simp_all add: Let_def fixedPart_updLink linkKey_def)

lemma fixedPart_targetOffsets: "fixedPart (targetOffsets ls ty s) = fixedPart s"
  by (induction ls arbitrary: ty s) (simp_all add: Let_def fixedPart_updLink linkKey_def)

lemma fixedPart_fold:
  assumes "\<And>x st. fixedPart (f x st) = fixedPart st"
  shows "fixedPart (fold f xs s) = fixedPart s"
  by (induction xs arbitrary: s) (simp_all add: assms)

lemma fixedPart_computeLinkOffsets: "fixedPart (computeLinkOffsets ns s) = fixedPart s"
  by (simp add: computeLinkOffsets_def Let_def fixedPart_fold fixedPart_fold_sortLinks
      fixedPart_sourceOffsets fixedPart_targetOffsets)

lemma fixedPart_nodeAt:
  assumes "fixedPart s' = fixedPart s"
  shows "nodeKey (nodeAt s' r) = nodeKey (nodeAt s r)"
proof -
  from assms have m: "map nodeKey (nodeStore s') = map nodeKey (nodeStore s)"
    by (simp add: fixedPart_def)
  then have len: "length (nodeStore s') = length (nodeStore s)" by (metis length_map)
  show ?thesis
  proof (cases "r < length (nodeStore s)")
    case True
    with m len show ?thesis by (metis nodeAt_def nth_map)
  next
    case False
    with len show ?thesis by (simp add: nodeAt_def)
  qed
qed

lemma fixedPart_linkAt:
  assumes "fixedPart s' = fixedPart s"
  shows "linkKey (linkAt s' l) = linkKey (linkAt s l)"
proof -
  from assms have m: "map linkKey (linkStore s') = map linkKey (linkStore s)"
    by (simp add: fixedPart_def)
  then have len: "length (linkStore s') = length (linkStore s)" by (metis length_map)
  show ?thesis
  proof (cases "l < length (linkStore s)")
    case True
    with m len show ?thesis by (metis linkAt_def nth_map)
  next
    case False
    with len show ?thesis by (simp add: linkAt_def)
  qed
qed

lemma fixedPart_fields:
  assumes "fixedPart s' = fixedPart s"
  shows "node_id (nodeAt s' r) = node_id (nodeAt s r)"
    and "node_label (nodeAt s' r) = node_label (nodeAt s r)"
    and "node_value (nodeAt s' r) = node_value (nodeAt s r)"
    and "node_depth (nodeAt s' r) = node_depth (nodeAt s r)"
    and "node_x (nodeAt s' r) = node_x (nodeAt s r)"
    and "node_y (nodeAt s' r) = node_y (nodeAt s r)"
    and "node_width (nodeAt s' r) = node_width (nodeAt s r)"
    and "node_height (nodeAt s' r) = node_height (nodeAt s r)"
    and "mset (sourceLinks (nodeAt s' r)) = mset (sourceLinks (nodeAt s r))"
    and "mset (targetLinks (nodeAt s' r)) = mset (targetLinks (nodeAt s r))"
    and "link_source (linkAt s' l) = link_source (linkAt s l)"
    and "link_target (linkAt s' l) = link_target (linkAt s l)"
    and "link_value (linkAt s' l) = link_value (linkAt s l)"
    and "length (nodeStore s') = length (nodeStore s)"
    and "length (linkStore s') = length (linkStore s)"
  using fixedPart_nodeAt[OF assms, of r] fixedPart_linkAt[OF assms, of l] assms
  by (simp_all add: nodeKey_def linkKey_def fixedPart_def) (metis length_map)+

lemma compute_stages:
  "compute cfg g s =
     (if graph_nodes g = [] then Inr (g, s)
      else case relaxNodePositions cfg (graph_nodes g) (initialPlacement cfg (graph_nodes g) s) of
             Inl e \<Rightarrow> Inl e
           | Inr s1 \<Rightarrow> Inr (g, computeLinkOffsets (graph_nodes g) s1))"
  by (simp add: compute_def initialPlacement_def Let_def)


lemma layout_frame:
  assumes rel: "relaxNodePositions cfg ns s0 = Inr s1" and fin: "s' = computeLinkOffsets ns s1"
  shows "node_id (nodeAt s' r) = node_id (nodeAt s0 r)"
    and "node_label (nodeAt s' r) = node_label (nodeAt s0 r)"
    and "node_depth (nodeAt s' r) = node_depth (nodeAt s0 r)"
    and "node_value (nodeAt s' r) = node_value (nodeAt s0 r)"
    and "node_x (nodeAt s' r) = node_x (nodeAt s0 r)"
    and "node_width (nodeAt s' r) = node_width (nodeAt s0 r)"
    and "node_height (nodeAt s' r) = node_height (nodeAt s0 r)"
    and "mset (sourceLinks (nodeAt s' r)) = mset (sourceLinks (nodeAt s0 r))"
    and "mset (targetLinks (nodeAt s' r)) = mset (targetLinks (nodeAt s0 r))"
    and "link_source (linkAt s' l) = link_source (linkAt s0 l)"
    and "link_target (linkAt s' l) = link_target (linkAt s0 l)"
    and "link_value (linkAt s' l) = link_value (linkAt s0 l)"
proof -
  note y = dropY_fields[OF dropY_relaxNodePositions[OF rel]]
  have fp: "fixedPart s' = fixedPart s1" by (simp add: fin fixedPart_computeLinkOffsets)
  note f = fixedPart_fields[OF fp]
  show "node_id (nodeAt s' r) = node_id (nodeAt s0 r)"
    using f(1)[of r] y(1)[of r] by (rule trans)
  show "node_label (nodeAt s' r) = node_label (nodeAt s0 r)"
    using f(2)[of r] y(2)[of r] by (rule trans)
  show "node_depth (nodeAt s' r) = node_depth (nodeAt s0 r)"
    using f(4)[of r] y(4)[of r] by (rule trans)
  show "node_value (nodeAt s' r) = node_value (nodeAt s0 r)"
    using f(3)[of r] y(3)[of r] by (rule trans)
  show "node_x (nodeAt s' r) = node_x (nodeAt s0 r)"
    using f(5)[of r] y(5)[of r] by (rule trans)
  show "node_width (nodeAt s' r) = node_width (nodeAt s0 r)"
    using f(7)[of r] y(6)[of r] by (rule trans)
  show "node_height (nodeAt s' r) = node_height (nodeAt s0 r)"
    using f(8)[of r] y(7)[of r] by (rule trans)
  show "mset (sourceLinks (nodeAt s' r)) = mset (sourceLinks (nodeAt s0 r))"
    using f(9)[of r] y(8)[of r] by simp
  show "mset (targetLinks (nodeAt s' r)) = mset (targetLinks (nodeAt s0 r))"
    using f(10)[of r] y(9)[of r] by simp
  show "link_source (linkAt s' l) = link_source (linkAt s0 l)"
    using f(11)[of l] y(10)[of l] by simp
  show "link_target (linkAt s' l) = link_target (linkAt s0 l)"
    using f(12)[of l] y(10)[of l] by simp
  show "link_value (linkAt s' l) = link_value (linkAt s0 l)"
    using f(13)[of l] y(10)[of l] by simp
qed

lemma compute_Inr:
  assumes "compute cfg g s = Inr (g', s')" and "graph_nodes g \<noteq> []"
  shows "\<exists>s1. relaxNodePositions cfg (graph_nodes g) (initialPlacement cfg (graph_nodes g) s) = Inr s1 \<and>
    s' = computeLinkOffsets (graph_nodes g) s1 \<and> g' = g"
proof -
  let ?s0 = "initialPlacement cfg (graph_nodes g) s"
  from assms have "(case relaxNodePositions cfg (graph_nodes g) ?s0 of
             Inl e \<Rightarrow> Inl e
           | Inr s1 \<Rightarrow> Inr (g, computeLinkOffsets (graph_nodes g) s1)) = Inr (g', s')"
    by (simp only: compute_stages if_False)
  then show ?thesis
    by (cases "relaxNodePositions cfg (graph_nodes g) ?s0") auto
qed

text \<open>
  When \<open>compute\<close> returns on a graph with nodes, the stages after the initial
  vertical placement (relaxation with collision resolution, link offsets) leave every
  node's id, depth, value, x, width and height and every link's source, target and value
  as the initial placement set them, and keep each node's outgoing and incoming links up
  to their order; what they write is the nodes' y, the order of the link arrays and the
  links' width, sy and ty.
\<close>

lemma frame_after_placement:
  assumes "compute cfg g s = Inr (g', s')" and "graph_nodes g \<noteq> []"
  shows "g' = g
     \<and> (\<forall>r. node_id (nodeAt s' r) = node_id (nodeAt (initialPlacement cfg (graph_nodes g) s) r)
           \<and> node_depth (nodeAt s' r) = node_depth (nodeAt (initialPlacement cfg (graph_nodes g) s) r)
           \<and> node_value (nodeAt s' r) = node_value (nodeAt (initialPlacement cfg (graph_nodes g) s) r)
           \<and> node_x (nodeAt s' r) = node_x (nodeAt (initialPlacement cfg (graph_nodes g) s) r)
           \<and> node_width (nodeAt s' r) = node_width (nodeAt (initialPlacement cfg (graph_nodes g) s) r)
           \<and> node_height (nodeAt s' r) = node_height (nodeAt (initialPlacement cfg (graph_nodes g) s) r)
           \<and> mset (sourceLinks (nodeAt s' r))
               = mset (sourceLinks (nodeAt (initialPlacement cfg (graph_nodes g) s) r))
           \<and> mset (targetLinks (nodeAt s' r))
               = mset (targetLinks (nodeAt (initialPlacement cfg (graph_nodes g) s) r)))
     \<and> (\<forall>l. link_source (linkAt s' l) = link_source (linkAt (initialPlacement cfg (graph_nodes g) s) l)
           \<and> link_target (linkAt s' l) = link_target (linkAt (initialPlacement cfg (graph_nodes g) s) l)
           \<and> link_value (linkAt s' l) = link_value (linkAt (initialPlacement cfg (graph_nodes g) s) l))"
proof -
  from compute_Inr[OF assms] obtain s1 where
    rel: "relaxNodePositions cfg (graph_nodes g) (initialPlacement cfg (graph_nodes g) s) = Inr s1" and
    fin: "s' = computeLinkOffsets (graph_nodes g) s1" and g: "g' = g"
    by blast
  note a = layout_frame[OF rel fin]
  show ?thesis
    by (intro conjI allI) (rule g a)+
qed

subsection \<open>Frames of the stages, for any projection of a node that a stage does not write\<close>

lemma map_nodeStore_nodeAt:
  assumes "map g (nodeStore s') = map g (nodeStore s)"
  shows "g (nodeAt s' r) = g (nodeAt s r)"
proof -
  from assms have len: "length (nodeStore s') = length (nodeStore s)" by (metis length_map)
  show ?thesis
  proof (cases "r < length (nodeStore s)")
    case True
    with assms len show ?thesis by (metis nodeAt_def nth_map)
  next
    case False
    with len show ?thesis by (simp add: nodeAt_def)
  qed
qed

lemma frame_fold:
  assumes "\<And>x st. map g (nodeStore (f x st)) = map g (nodeStore st) \<and> linkStore (f x st) = linkStore st"
  shows "map g (nodeStore (fold f xs s)) = map g (nodeStore s) \<and> linkStore (fold f xs s) = linkStore s"
  by (induction xs arbitrary: s) (simp_all add: assms)

lemma setDepth_frame:
  assumes "\<And>n d. g (n\<lparr>node_depth := d\<rparr>) = g n"
  shows "map g (nodeStore (setDepth r d s)) = map g (nodeStore s) \<and> linkStore (setDepth r d s) = linkStore s"
  by (simp add: setDepth_def map_nodeStore_updNode assms)

lemma visitLayer_frame:
  assumes "\<And>n d. g (n\<lparr>node_depth := d\<rparr>) = g n"
    and "visitLayer d cur (s, v, nxt) = (s', v', nxt')"
  shows "map g (nodeStore s') = map g (nodeStore s) \<and> linkStore s' = linkStore s"
  using assms(2)
proof (induction cur arbitrary: s v nxt)
  case Nil
  then show ?case by simp
next
  case (Cons r rs)
  show ?case
  proof (cases "node_id (nodeAt s r) \<in> v")
    case True
    with Cons.prems have "visitLayer d rs (s, v, nxt) = (s', v', nxt')" by simp
    from Cons.IH[OF this] show ?thesis .
  next
    case False
    let ?v = "insert (node_id (nodeAt s r)) v"
    let ?s = "setDepth r d s"
    from Cons.prems False
    have "visitLayer d rs (?s, ?v, nxt @ pushTargets ?s ?v (sourceLinks (nodeAt ?s r))) = (s', v', nxt')"
      by (simp add: Let_def)
    from Cons.IH[OF this] setDepth_frame[of g r d s, OF assms(1)] show ?thesis by simp
  qed
qed

lemma bfs_frame:
  assumes "\<And>n d. g (n\<lparr>node_depth := d\<rparr>) = g n"
    and "bfs s v cur d = (s', v')"
  shows "map g (nodeStore s') = map g (nodeStore s) \<and> linkStore s' = linkStore s"
  using assms(2)
proof (induction s v cur d rule: bfs.induct)
  case (1 s v cur d)
  show ?case
  proof (cases "cur = []")
    case True
    with "1.prems" show ?thesis by (simp add: bfs.simps)
  next
    case False
    obtain s1 v1 nxt where vl: "visitLayer d cur (s, v, []) = (s1, v1, nxt)"
      by (metis prod_cases3)
    with False "1.prems" have b: "bfs s1 v1 nxt (Suc d) = (s', v')"
      by (subst (asm) bfs.simps) simp
    from "1.IH"[OF False vl[symmetric] refl b] visitLayer_frame[OF assms(1) vl]
    show ?thesis by simp
  qed
qed

lemma computeDepths_frame:
  assumes "\<And>n d. g (n\<lparr>node_depth := d\<rparr>) = g n"
  shows "map g (nodeStore (computeDepths cfg ns s)) = map g (nodeStore s)
       \<and> linkStore (computeDepths cfg ns s) = linkStore s"
proof -
  note sd = setDepth_frame[of g, OF assms]
  have mu: "map g (nodeStore (markUnvisited v ns st)) = map g (nodeStore st)
       \<and> linkStore (markUnvisited v ns st) = linkStore st" for v st
    unfolding markUnvisited_def by (rule frame_fold) (simp add: sd)
  have js: "map g (nodeStore (justifySinks ns st)) = map g (nodeStore st)
       \<and> linkStore (justifySinks ns st) = linkStore st" for st
    unfolding justifySinks_def Let_def by (rule frame_fold) (simp add: sd)
  have z: "map g (nodeStore (fold (\<lambda>r. setDepth r 0) ns s)) = map g (nodeStore s)
       \<and> linkStore (fold (\<lambda>r. setDepth r 0) ns s) = linkStore s"
    by (rule frame_fold) (simp add: sd)
  show ?thesis
  proof (cases "filter (\<lambda>r. length (targetLinks (nodeAt s r)) = 0) ns = []")
    case True
    with z show ?thesis by (simp add: computeDepths_def)
  next
    case False
    obtain s1 v1 where b: "bfs s {} (filter (\<lambda>r. length (targetLinks (nodeAt s r)) = 0) ns) 0 = (s1, v1)"
      by (metis surj_pair)
    from bfs_frame[of g, OF assms b] mu[of v1 s1] js[of "markUnvisited v1 ns s1"] False b
    show ?thesis by (simp add: computeDepths_def Let_def)
  qed
qed

lemma computeNodeValues_frame:
  assumes "\<And>n v. g (n\<lparr>node_value := v\<rparr>) = g n"
  shows "map g (nodeStore (computeNodeValues ns s)) = map g (nodeStore s)
       \<and> linkStore (computeNodeValues ns s) = linkStore s"
  unfolding computeNodeValues_def
  by (rule frame_fold) (simp add: Let_def map_nodeStore_updNode assms)

lemma positionNodesX_frame:
  assumes "\<And>n a b. g (n\<lparr>node_x := a, node_width := b\<rparr>) = g n"
  shows "map g (nodeStore (positionNodesX cfg ns s)) = map g (nodeStore s)
       \<and> linkStore (positionNodesX cfg ns s) = linkStore s"
  unfolding positionNodesX_def Let_def
  by (rule frame_fold) (simp add: map_nodeStore_updNode assms)

lemma stackColumn_frame:
  assumes "\<And>n a b. g (n\<lparr>node_y := a, node_height := b\<rparr>) = g n"
  shows "map g (nodeStore (stackColumn cfg gs col y s)) = map g (nodeStore s)
       \<and> linkStore (stackColumn cfg gs col y s) = linkStore s"
  by (induction col arbitrary: y s) (simp_all add: Let_def map_nodeStore_updNode assms)

lemma initializeNodeY_frame:
  assumes "\<And>n a b. g (n\<lparr>node_y := a, node_height := b\<rparr>) = g n"
  shows "map g (nodeStore (initializeNodeY cfg ns s)) = map g (nodeStore s)
       \<and> linkStore (initializeNodeY cfg ns s) = linkStore s"
  unfolding initializeNodeY_def Let_def
  by (rule frame_fold) (simp add: stackColumn_frame[of g, OF assms])

subsection \<open>Columns\<close>

lemma fold_max_ge: "(a::nat) \<le> fold max xs a"
  by (induction xs arbitrary: a) (auto intro: order_trans[OF max.cobounded2])

lemma fold_max_mem: "x \<in> set xs \<Longrightarrow> (x::nat) \<le> fold max xs a"
proof (induction xs arbitrary: a)
  case Nil
  then show ?case by simp
next
  case (Cons y ys)
  then show ?case
    using fold_max_ge[of "max y a" ys] by auto
qed

lemma fold_max_attained: "fold max xs (a::nat) = a \<or> fold max xs a \<in> set xs"
proof (induction xs arbitrary: a)
  case Nil
  then show ?case by simp
next
  case (Cons y ys)
  from Cons[of "max y a"] show ?case by (auto simp: max_def split: if_splits)
qed

lemma depth_le_maxDepthOf: "r \<in> set ns \<Longrightarrow> node_depth (nodeAt s r) \<le> maxDepthOf s ns"
  unfolding maxDepthOf_def by (rule fold_max_mem) simp

lemma maxDepthOf_attained:
  "maxDepthOf s ns = 0 \<or> (\<exists>r\<in>set ns. node_depth (nodeAt s r) = maxDepthOf s ns)"
  using fold_max_attained[of "map (\<lambda>r. node_depth (nodeAt s r)) ns" 0]
  unfolding maxDepthOf_def by auto

lemma maxDepthOf_cong:
  assumes "\<And>r. r \<in> set ns \<Longrightarrow> node_depth (nodeAt s' r) = node_depth (nodeAt s r)"
  shows "maxDepthOf s' ns = maxDepthOf s ns"
proof -
  have "map (\<lambda>r. node_depth (nodeAt s' r)) ns = map (\<lambda>r. node_depth (nodeAt s r)) ns"
    using assms by simp
  then show ?thesis by (simp only: maxDepthOf_def)
qed

lemma getColumns_fold:
  assumes "\<And>r. r \<in> set rs \<Longrightarrow> f r < length cols"
  shows "fold (\<lambda>r columns. columns[f r := columns ! f r @ [r]]) rs cols
       = map (\<lambda>d. cols ! d @ filter (\<lambda>r. f r = d) rs) [0 ..< length cols]"
  using assms
proof (induction rs arbitrary: cols)
  case Nil
  then show ?case by (simp add: map_nth)
next
  case (Cons r rs)
  let ?c = "cols[f r := cols ! f r @ [r]]"
  have len: "length ?c = length cols" by simp
  have "fold (\<lambda>r columns. columns[f r := columns ! f r @ [r]]) rs ?c
       = map (\<lambda>d. ?c ! d @ filter (\<lambda>r. f r = d) rs) [0 ..< length ?c]"
    by (rule Cons.IH) (simp add: Cons.prems)
  also have "\<dots> = map (\<lambda>d. cols ! d @ filter (\<lambda>x. f x = d) (r # rs)) [0 ..< length cols]"
    using Cons.prems[of r] by (auto simp: nth_list_update)
  finally show ?case by simp
qed

lemma getColumns_filter:
  "getColumns s ns
     = map (\<lambda>d. filter (\<lambda>r. node_depth (nodeAt s r) = d) ns) [0 ..< maxDepthOf s ns + 1]"
proof -
  define m where "m = maxDepthOf s ns + 1"
  have "fold (\<lambda>r columns. columns[node_depth (nodeAt s r) := columns ! node_depth (nodeAt s r) @ [r]])
          ns (replicate m [])
       = map (\<lambda>d. replicate m [] ! d @ filter (\<lambda>r. node_depth (nodeAt s r) = d) ns)
           [0 ..< length (replicate m ([]::nat list))]"
    by (rule getColumns_fold) (simp add: m_def depth_le_maxDepthOf less_Suc_eq_le)
  also have "\<dots> = map (\<lambda>d. filter (\<lambda>r. node_depth (nodeAt s r) = d) ns) [0 ..< m]"
    by (rule map_cong) simp_all
  finally show ?thesis by (simp add: getColumns_def Let_def m_def)
qed

lemma length_getColumns: "length (getColumns s ns) = maxDepthOf s ns + 1"
  by (simp add: getColumns_filter)

lemma nth_getColumns:
  "d \<le> maxDepthOf s ns \<Longrightarrow> getColumns s ns ! d = filter (\<lambda>r. node_depth (nodeAt s r) = d) ns"
  by (simp add: getColumns_filter less_Suc_eq_le del: upt_Suc)

lemma getColumns_cong:
  assumes "\<And>r. r \<in> set ns \<Longrightarrow> node_depth (nodeAt s' r) = node_depth (nodeAt s r)"
  shows "getColumns s' ns = getColumns s ns"
proof -
  have "filter (\<lambda>r. node_depth (nodeAt s' r) = d) ns = filter (\<lambda>r. node_depth (nodeAt s r) = d) ns" for d
    using assms by (intro filter_cong) auto
  then show ?thesis by (simp add: getColumns_filter maxDepthOf_cong[OF assms])
qed

subsection \<open>Depths after the first stage\<close>

lemma initialPlacement_depth:
  "node_depth (nodeAt (initialPlacement cfg ns s) r) = node_depth (nodeAt (computeDepths cfg ns s) r)"
proof -
  let ?s1 = "computeDepths cfg ns s"
  let ?s2 = "computeNodeValues ns ?s1"
  let ?s3 = "positionNodesX cfg ns ?s2"
  have "map node_depth (nodeStore (initializeNodeY cfg ns ?s3)) = map node_depth (nodeStore ?s3)"
    using initializeNodeY_frame[of node_depth] by simp
  moreover have "map node_depth (nodeStore ?s3) = map node_depth (nodeStore ?s2)"
    using positionNodesX_frame[of node_depth] by simp
  moreover have "map node_depth (nodeStore ?s2) = map node_depth (nodeStore ?s1)"
    using computeNodeValues_frame[of node_depth] by simp
  ultimately have "map node_depth (nodeStore (initialPlacement cfg ns s)) = map node_depth (nodeStore ?s1)"
    by (simp add: initialPlacement_def)
  then show ?thesis by (rule map_nodeStore_nodeAt)
qed

lemma depth_fold_setDepth0:
  "node_depth (nodeAt (fold (\<lambda>r. setDepth r 0) ns s) r)
     = (if r \<in> set ns then 0 else node_depth (nodeAt s r))"
proof (induction ns arbitrary: s)
  case Nil
  then show ?case by simp
next
  case (Cons a ns)
  have "node_depth (nodeAt (setDepth a 0 s) r) = (if r = a then 0 else node_depth (nodeAt s r))"
    by (auto simp: setDepth_def nodeAt_updNode) (simp add: nodeAt_def blankNode_def)
  with Cons.IH[of "setDepth a 0 s"] show ?case by auto
qed

lemma computeDepths_no_source:
  assumes "\<forall>r\<in>set ns. targetLinks (nodeAt s r) \<noteq> []" and "r \<in> set ns"
  shows "node_depth (nodeAt (computeDepths cfg ns s) r) = 0"
proof -
  from assms(1) have "filter (\<lambda>r. length (targetLinks (nodeAt s r)) = 0) ns = []"
    by (simp add: filter_empty_conv)
  then have "computeDepths cfg ns s = fold (\<lambda>r. setDepth r 0) ns s"
    by (simp add: computeDepths_def)
  with assms(2) show ?thesis by (simp add: depth_fold_setDepth0)
qed

subsection \<open>A single column is never relaxed\<close>

lemma relaxIteration_single:
  assumes "length (fst st) \<le> 1"
  shows "relaxIteration cfg d st = Inr st"
  using assms by (simp add: relaxIteration_def)

lemma relaxLoop_single:
  assumes "length (fst st) \<le> 1"
  shows "relaxLoop cfg i st = Inr st"
  using assms
proof (induction cfg i st rule: relaxLoop.induct)
  case (1 cfg i st)
  show ?case
  proof (cases "real i < iterations cfg")
    case True
    have it: "relaxIteration cfg (damping cfg i) st = Inr st"
      by (rule relaxIteration_single[OF "1.prems"])
    from "1.IH"[OF True it "1.prems"] True it show ?thesis
      by (subst relaxLoop.simps) simp
  next
    case False
    then show ?thesis by (subst relaxLoop.simps) simp
  qed
qed

subsection \<open>The global scale\<close>

lemma columnValue_sum_list: "columnValue s c = (\<Sum>r\<leftarrow>c. node_value (nodeAt s r))"
proof -
  have "foldl (\<lambda>acc r. acc + node_value (nodeAt s r)) a c = a + (\<Sum>r\<leftarrow>c. node_value (nodeAt s r))" for a
    by (induction c arbitrary: a) simp_all
  then show ?thesis by (simp add: columnValue_def)
qed

lemma fold_scaleStep:
  "fold (scaleStep cfg s) columns acc =
     (case acc of
        None \<Rightarrow> if scaleCandidates cfg s columns = [] then None
                else Some (Min (set (scaleCandidates cfg s columns)))
      | Some a \<Rightarrow> Some (Min (set (a # scaleCandidates cfg s columns))))"
proof (induction columns arbitrary: acc)
  case Nil
  then show ?case by (simp add: scaleCandidates_def split: option.splits)
next
  case (Cons c cs)
  let ?tv = "\<Sum>r\<leftarrow>c. node_value (nodeAt s r)"
  let ?sc = "(cfg_height cfg - pad_top (padding cfg) - pad_bottom (padding cfg)
                 - max 0 ((real (length c) - 1) * nodePadding cfg)) / ?tv"
  show ?case
  proof (cases "0 < ?tv")
    case False
    then have a: "scaleStep cfg s c acc = acc"
      by (simp add: scaleStep_def Let_def columnValue_sum_list)
    from False have b: "scaleCandidates cfg s (c # cs) = scaleCandidates cfg s cs"
      by (simp add: scaleCandidates_def)
    show ?thesis unfolding b using Cons[of acc] by (simp add: a)
  next
    case True
    then have b: "scaleCandidates cfg s (c # cs) = ?sc # scaleCandidates cfg s cs"
      by (simp add: scaleCandidates_def)
    show ?thesis
    proof (cases acc)
      case None
      from True have a: "scaleStep cfg s c None = Some ?sc"
        by (simp add: scaleStep_def Let_def columnValue_sum_list)
      show ?thesis using Cons[of "Some ?sc"] None by (simp add: a b)
    next
      case (Some g)
      from True have a: "scaleStep cfg s c (Some g) = Some (min ?sc g)"
        by (simp add: scaleStep_def Let_def columnValue_sum_list min_def)
      have "Min (set (min ?sc g # scaleCandidates cfg s cs))
          = Min (set (g # ?sc # scaleCandidates cfg s cs))"
        by (cases "scaleCandidates cfg s cs = []") (simp_all add: min.commute min.assoc)
      then show ?thesis using Cons[of "Some (min ?sc g)"] Some by (simp add: a b)
    qed
  qed
qed

lemma computeGlobalScale_spec:
  "computeGlobalScale cfg s (getColumns s ns) = specScale cfg s ns"
  by (simp add: computeGlobalScale_def fold_scaleStep specScale_def Let_def)

lemma scaleCandidates_cong:
  assumes "\<And>c r. c \<in> set columns \<Longrightarrow> r \<in> set c \<Longrightarrow> node_value (nodeAt s' r) = node_value (nodeAt s r)"
  shows "scaleCandidates cfg s' columns = scaleCandidates cfg s columns"
proof -
  have "(\<Sum>r\<leftarrow>c. node_value (nodeAt s' r)) = (\<Sum>r\<leftarrow>c. node_value (nodeAt s r))"
    if "c \<in> set columns" for c
    using assms[OF that] by (intro arg_cong[where f = sum_list] map_cong) auto
  then show ?thesis
    unfolding scaleCandidates_def
    by (intro map_cong filter_cong) auto
qed

lemma in_getColumns:
  assumes "c \<in> set (getColumns s ns)" and "r \<in> set c"
  shows "r \<in> set ns"
  using assms by (auto simp: getColumns_filter)

lemma specScale_cong:
  assumes "\<And>r. r \<in> set ns \<Longrightarrow> node_depth (nodeAt s' r) = node_depth (nodeAt s r)"
    and "\<And>r. r \<in> set ns \<Longrightarrow> node_value (nodeAt s' r) = node_value (nodeAt s r)"
  shows "specScale cfg s' ns = specScale cfg s ns"
proof -
  have g: "getColumns s' ns = getColumns s ns" by (rule getColumns_cong[OF assms(1)])
  have "scaleCandidates cfg s' (getColumns s ns) = scaleCandidates cfg s (getColumns s ns)"
    by (rule scaleCandidates_cong) (auto dest: in_getColumns intro: assms(2))
  then show ?thesis by (simp add: specScale_def g)
qed

subsection \<open>Heights set by the initial placement\<close>

lemma stackColumn_value:
  "node_value (nodeAt (stackColumn cfg gs col y s) r) = node_value (nodeAt s r)"
  using stackColumn_frame[of node_value cfg gs col y s]
  by (intro map_nodeStore_nodeAt) simp

lemma stackColumn_height:
  "node_height (nodeAt (stackColumn cfg gs col y s) r)
     = (if r \<in> set col \<and> r < length (nodeStore s) then max 1 (node_value (nodeAt s r) * gs)
        else node_height (nodeAt s r))"
proof (induction col arbitrary: y s)
  case Nil
  then show ?case by simp
next
  case (Cons a col)
  let ?s = "updNode a (\<lambda>n. n\<lparr>node_y := y, node_height := max 1 (node_value n * gs)\<rparr>) s"
  have v: "node_value (nodeAt ?s q) = node_value (nodeAt s q)" for q
    by (simp add: nodeAt_updNode)
  have h: "node_height (nodeAt ?s q)
      = (if q = a \<and> q < length (nodeStore s) then max 1 (node_value (nodeAt s q) * gs)
         else node_height (nodeAt s q))" for q
    by (simp add: nodeAt_updNode)
  have "stackColumn cfg gs (a # col) y s
      = stackColumn cfg gs col (y + node_height (nodeAt ?s a) + nodePadding cfg) ?s"
    by (simp add: Let_def)
  then show ?case
    using Cons.IH[of "y + node_height (nodeAt ?s a) + nodePadding cfg" ?s]
    by (auto simp: v h)
qed

lemma fold_stackColumn_height:
  assumes "\<And>st c. set (srt st c) = set c"
  shows "node_height (nodeAt (fold (\<lambda>column st. stackColumn cfg gs (srt st column) y0 st) columns s) r)
     = (if (\<exists>c\<in>set columns. r \<in> set c) \<and> r < length (nodeStore s)
        then max 1 (node_value (nodeAt s r) * gs) else node_height (nodeAt s r))"
proof (induction columns arbitrary: s)
  case Nil
  then show ?case by simp
next
  case (Cons c cs)
  let ?s = "stackColumn cfg gs (srt s c) y0 s"
  have "map node_value (nodeStore ?s) = map node_value (nodeStore s)"
    using stackColumn_frame[of node_value cfg gs "srt s c" y0 s] by simp
  then have len: "length (nodeStore ?s) = length (nodeStore s)"
    by (rule map_eq_imp_length_eq)
  show ?case
    using Cons.IH[of ?s]
    by (simp add: stackColumn_value stackColumn_height assms len)
qed

lemma in_some_column:
  assumes "r \<in> set ns"
  shows "\<exists>c\<in>set (getColumns s ns). r \<in> set c"
proof -
  let ?d = "node_depth (nodeAt s r)"
  have d: "?d \<le> maxDepthOf s ns" by (rule depth_le_maxDepthOf[OF assms])
  then have "getColumns s ns ! ?d \<in> set (getColumns s ns)"
    by (intro nth_mem) (simp add: length_getColumns)
  moreover have "r \<in> set (getColumns s ns ! ?d)"
    using assms by (simp add: nth_getColumns[OF d])
  ultimately show ?thesis by blast
qed

lemma initializeNodeY_height:
  assumes "r \<in> set ns" and "r < length (nodeStore s)"
  shows "node_height (nodeAt (initializeNodeY cfg ns s) r)
       = max 1 (node_value (nodeAt s r) * specScale cfg s ns)"
proof -
  have "node_height (nodeAt (fold (\<lambda>column st.
            stackColumn cfg (specScale cfg s ns)
              ((\<lambda>st c. sort_key (\<lambda>r. - node_value (nodeAt st r)) c) st column)
              (pad_top (padding cfg)) st) (getColumns s ns) s) r)
      = (if (\<exists>c\<in>set (getColumns s ns). r \<in> set c) \<and> r < length (nodeStore s)
         then max 1 (node_value (nodeAt s r) * specScale cfg s ns) else node_height (nodeAt s r))"
    by (rule fold_stackColumn_height) simp
  with in_some_column[OF assms(1), of s] assms(2) show ?thesis
    by (simp add: initializeNodeY_def Let_def computeGlobalScale_spec)
qed

lemma length_nodeStore_stages:
  "length (nodeStore (computeDepths cfg ns s)) = length (nodeStore s)"
  "length (nodeStore (computeNodeValues ns s)) = length (nodeStore s)"
  "length (nodeStore (positionNodesX cfg ns s)) = length (nodeStore s)"
  "length (nodeStore (initializeNodeY cfg ns s)) = length (nodeStore s)"
proof -
  have "map node_id (nodeStore (computeDepths cfg ns s)) = map node_id (nodeStore s)"
    using computeDepths_frame[of node_id cfg ns s] by simp
  then show "length (nodeStore (computeDepths cfg ns s)) = length (nodeStore s)"
    by (rule map_eq_imp_length_eq)
  have "map node_id (nodeStore (computeNodeValues ns s)) = map node_id (nodeStore s)"
    using computeNodeValues_frame[of node_id ns s] by simp
  then show "length (nodeStore (computeNodeValues ns s)) = length (nodeStore s)"
    by (rule map_eq_imp_length_eq)
  have "map node_id (nodeStore (positionNodesX cfg ns s)) = map node_id (nodeStore s)"
    using positionNodesX_frame[of node_id cfg ns s] by simp
  then show "length (nodeStore (positionNodesX cfg ns s)) = length (nodeStore s)"
    by (rule map_eq_imp_length_eq)
  have "map node_id (nodeStore (initializeNodeY cfg ns s)) = map node_id (nodeStore s)"
    using initializeNodeY_frame[of node_id cfg ns s] by simp
  then show "length (nodeStore (initializeNodeY cfg ns s)) = length (nodeStore s)"
    by (rule map_eq_imp_length_eq)
qed

text \<open>
  With innerHeight = height - padding.top - padding.bottom, let
  S be the minimum, over the depth columns with positive total value, of
  (innerHeight - max(0, (count - 1) * nodePadding)) / totalValue, or 0 if no column has
  positive total value. After \<open>compute\<close> every node of the graph has height
  max(1, value * S), with the one S for all columns.
\<close>

lemma heights_after_compute:
  assumes "compute cfg g s = Inr (g', s')"
    and "r \<in> set (graph_nodes g)" and "r < length (nodeStore s)"
  shows "node_height (nodeAt s' r)
       = max 1 (node_value (nodeAt s' r) * specScale cfg s' (graph_nodes g))"
proof -
  let ?ns = "graph_nodes g"
  let ?s3 = "positionNodesX cfg ?ns (computeNodeValues ?ns (computeDepths cfg ?ns s))"
  let ?s4 = "initialPlacement cfg ?ns s"
  from assms(2) have ne: "?ns \<noteq> []" by auto
  from compute_Inr[OF assms(1) ne] obtain s1 where
    rel: "relaxNodePositions cfg ?ns ?s4 = Inr s1" and fin: "s' = computeLinkOffsets ?ns s1"
    by blast
  note fr = layout_frame[OF rel fin]
  have s4: "?s4 = initializeNodeY cfg ?ns ?s3" by (simp add: initialPlacement_def)
  have v43: "node_value (nodeAt ?s4 q) = node_value (nodeAt ?s3 q)" for q
    unfolding s4 using initializeNodeY_frame[of node_value cfg ?ns ?s3]
    by (intro map_nodeStore_nodeAt) simp
  have d43: "node_depth (nodeAt ?s4 q) = node_depth (nodeAt ?s3 q)" for q
    unfolding s4 using initializeNodeY_frame[of node_depth cfg ?ns ?s3]
    by (intro map_nodeStore_nodeAt) simp
  have len: "r < length (nodeStore ?s3)" using assms(3) by (simp add: length_nodeStore_stages)
  have "node_height (nodeAt s' r) = node_height (nodeAt ?s4 r)" by (rule fr(7))
  also have "\<dots> = max 1 (node_value (nodeAt ?s3 r) * specScale cfg ?s3 ?ns)"
    unfolding s4 by (rule initializeNodeY_height[OF assms(2) len])
  also have "specScale cfg ?s3 ?ns = specScale cfg s' ?ns"
    by (rule specScale_cong[symmetric]) (simp_all add: fr(3) fr(4) v43 d43)
  also have "node_value (nodeAt ?s3 r) = node_value (nodeAt s' r)"
    by (simp add: fr(4) v43)
  finally show ?thesis .
qed

subsection \<open>Tilings\<close>

lemma tiled_cong:
  assumes "\<And>l. l \<in> set ls \<Longrightarrow> off' l = off l" and "\<And>l. l \<in> set ls \<Longrightarrow> wid' l = wid l"
  shows "tiled off' wid' y ls = tiled off wid y ls"
  using assms by (induction ls arbitrary: y) auto

lemma tiled_nth:
  assumes "tiled off wid y ls"
  shows "(ls \<noteq> [] \<longrightarrow> off (ls ! 0) = y)
       \<and> (\<forall>i. Suc i < length ls \<longrightarrow> off (ls ! Suc i) = off (ls ! i) + wid (ls ! i))"
  using assms
proof (induction ls arbitrary: y)
  case Nil
  then show ?case by simp
next
  case (Cons l ls)
  then have o: "off l = y" and t: "tiled off wid (y + wid l) ls" by auto
  note ih = Cons.IH[OF t]
  have "off ((l # ls) ! Suc i) = off ((l # ls) ! i) + wid ((l # ls) ! i)" if "Suc i < length (l # ls)" for i
  proof (cases i)
    case 0
    with that ih o show ?thesis by auto
  next
    case (Suc k)
    with that ih show ?thesis by auto
  qed
  with o show ?case by auto
qed

subsection \<open>sourceOffsets and targetOffsets\<close>

lemma sourceOffsets_nodeStore [simp]: "nodeStore (sourceOffsets tot r ls sy s) = nodeStore s"
  by (induction ls arbitrary: sy s) (simp_all add: Let_def)

lemma targetOffsets_nodeStore [simp]: "nodeStore (targetOffsets ls ty s) = nodeStore s"
  by (induction ls arbitrary: ty s) (simp_all add: Let_def)

lemma nodeAt_sourceOffsets [simp]: "nodeAt (sourceOffsets tot r ls sy s) q = nodeAt s q"
  by (simp add: nodeAt_def)

lemma nodeAt_targetOffsets [simp]: "nodeAt (targetOffsets ls ty s) q = nodeAt s q"
  by (simp add: nodeAt_def)

lemma sourceOffsets_frame:
  assumes "\<And>k w y. g (k\<lparr>link_width := w, link_sy := y\<rparr>) = g k"
  shows "map g (linkStore (sourceOffsets tot r ls sy s)) = map g (linkStore s)"
  by (induction ls arbitrary: sy s) (simp_all add: Let_def map_linkStore_updLink assms)

lemma targetOffsets_frame:
  assumes "\<And>k y. g (k\<lparr>link_ty := y\<rparr>) = g k"
  shows "map g (linkStore (targetOffsets ls ty s)) = map g (linkStore s)"
  by (induction ls arbitrary: ty s) (simp_all add: Let_def map_linkStore_updLink assms)

lemma map_linkStore_linkAt:
  assumes "map g (linkStore s') = map g (linkStore s)"
  shows "g (linkAt s' l) = g (linkAt s l)"
proof -
  from assms have len: "length (linkStore s') = length (linkStore s)" by (rule map_eq_imp_length_eq)
  show ?thesis
  proof (cases "l < length (linkStore s)")
    case True
    with assms len show ?thesis by (metis linkAt_def nth_map)
  next
    case False
    with len show ?thesis by (simp add: linkAt_def)
  qed
qed

lemma sourceOffsets_other:
  "l' \<notin> set ls \<Longrightarrow> linkAt (sourceOffsets tot r ls sy s) l' = linkAt s l'"
  by (induction ls arbitrary: sy s) (auto simp: Let_def linkAt_updLink)


lemma sourceOffsets_result:
  assumes "distinct ls" and "\<forall>l\<in>set ls. l < length (linkStore s)"
  shows "(\<forall>l\<in>set ls. link_width (linkAt (sourceOffsets tot r ls sy s) l)
            = (if tot > 0 then link_value (linkAt s l) / tot * node_height (nodeAt s r) else 0))
       \<and> tiled (\<lambda>l. link_sy (linkAt (sourceOffsets tot r ls sy s) l))
           (\<lambda>l. link_width (linkAt (sourceOffsets tot r ls sy s) l)) sy ls"
  using assms
proof (induction ls arbitrary: sy s)
  case Nil
  then show ?case by simp
next
  case (Cons l ls)
  define w where "w = (if tot > 0 then link_value (linkAt s l) / tot * node_height (nodeAt s r) else 0)"
  define s1 where "s1 = updLink l (\<lambda>k. k\<lparr>link_width :=
                   (if tot > 0 then (link_value k / tot) * node_height (nodeAt s r) else 0),
                 link_sy := sy\<rparr>) s"
  define res where "res = sourceOffsets tot r ls (sy + link_width (linkAt s1 l)) s1"
  have unf: "sourceOffsets tot r (l # ls) sy s = res"
    by (simp add: Let_def s1_def res_def)
  from Cons.prems have lr: "l < length (linkStore s)" and nl: "l \<notin> set ls" and d: "distinct ls"
    and r: "\<forall>l\<in>set ls. l < length (linkStore s1)" by (auto simp: s1_def)
  have at_l: "linkAt res l = linkAt s1 l"
    unfolding res_def by (rule sourceOffsets_other[OF nl])
  have sl: "linkAt s1 l = (linkAt s l)\<lparr>link_width := w, link_sy := sy\<rparr>"
    using lr by (simp add: s1_def w_def linkAt_updLink)
  have val: "link_value (linkAt s1 k) = link_value (linkAt s k)" for k
    by (simp add: s1_def linkAt_updLink)
  have hgt: "node_height (nodeAt s1 r) = node_height (nodeAt s r)" by (simp add: s1_def)
  have ih: "(\<forall>k\<in>set ls. link_width (linkAt res k)
            = (if tot > 0 then link_value (linkAt s1 k) / tot * node_height (nodeAt s1 r) else 0))
       \<and> tiled (\<lambda>l. link_sy (linkAt res l)) (\<lambda>l. link_width (linkAt res l))
           (sy + link_width (linkAt s1 l)) ls"
    unfolding res_def by (rule Cons.IH[OF d r])
  have wl: "link_width (linkAt res l) = w" and yl: "link_sy (linkAt res l) = sy"
    and w1: "link_width (linkAt s1 l) = w"
    by (simp_all add: at_l sl)
  from ih have a: "\<forall>k\<in>set ls. link_width (linkAt res k)
            = (if tot > 0 then link_value (linkAt s k) / tot * node_height (nodeAt s r) else 0)"
    unfolding val hgt by (rule conjunct1)
  from ih have b: "tiled (\<lambda>l. link_sy (linkAt res l)) (\<lambda>l. link_width (linkAt res l)) (sy + w) ls"
    unfolding w1 by (rule conjunct2)
  have c: "link_width (linkAt res l)
      = (if tot > 0 then link_value (linkAt s l) / tot * node_height (nodeAt s r) else 0)"
    using wl by (simp only: w_def)
  show ?case
    unfolding unf using a b c wl yl by simp
qed


subsection \<open>Sorting the link arrays\<close>

lemma sort_key_idem: "sort_key f (sort_key f xs) = sort_key f xs"
  by (rule sort_key_id_if_sorted) simp

lemma sortLinks_frame:
  assumes "\<And>n a. g (n\<lparr>sourceLinks := a\<rparr>) = g n" and "\<And>n a. g (n\<lparr>targetLinks := a\<rparr>) = g n"
  shows "map g (nodeStore (sortLinks r s)) = map g (nodeStore s) \<and> linkStore (sortLinks r s) = linkStore s"
  by (simp add: sortLinks_def Let_def map_nodeStore_updNode assms)

lemma sortLinks_keys:
  "node_y (nodeAt (sortLinks r s) q) = node_y (nodeAt s q)"
  "linkAt (sortLinks r s) l = linkAt s l"
  "length (nodeStore (sortLinks r s)) = length (nodeStore s)"
proof -
  have m: "map node_y (nodeStore (sortLinks r s)) = map node_y (nodeStore s)"
    and l: "linkStore (sortLinks r s) = linkStore s"
    using sortLinks_frame[of node_y r s] by simp_all
  from m show "node_y (nodeAt (sortLinks r s) q) = node_y (nodeAt s q)"
    by (rule map_nodeStore_nodeAt)
  from l show "linkAt (sortLinks r s) l = linkAt s l" by (simp add: linkAt_def)
  from m show "length (nodeStore (sortLinks r s)) = length (nodeStore s)"
    by (rule map_eq_imp_length_eq)
qed

lemma sortLinks_links:
  "sourceLinks (nodeAt (sortLinks r s) q)
     = (if q = r \<and> r < length (nodeStore s)
        then sort_key (\<lambda>l. node_y (nodeAt s (link_target (linkAt s l)))) (sourceLinks (nodeAt s r))
        else sourceLinks (nodeAt s q))"
  "targetLinks (nodeAt (sortLinks r s) q)
     = (if q = r \<and> r < length (nodeStore s)
        then sort_key (\<lambda>l. node_y (nodeAt s (link_source (linkAt s l)))) (targetLinks (nodeAt s r))
        else targetLinks (nodeAt s q))"
proof -
  define s1 where "s1 = updNode r (\<lambda>n. n\<lparr>sourceLinks :=
                 sort_key (\<lambda>l. node_y (nodeAt s (link_target (linkAt s l)))) (sourceLinks n)\<rparr>) s"
  have e: "sortLinks r s = updNode r (\<lambda>n. n\<lparr>targetLinks :=
                 sort_key (\<lambda>l. node_y (nodeAt s1 (link_source (linkAt s1 l)))) (targetLinks n)\<rparr>) s1"
    by (simp add: sortLinks_def Let_def s1_def)
  have y: "node_y (nodeAt s1 t) = node_y (nodeAt s t)" for t
    by (simp add: s1_def nodeAt_updNode)
  have l: "linkAt s1 k = linkAt s k" for k by (simp add: s1_def)
  have k: "(\<lambda>l. node_y (nodeAt s1 (link_source (linkAt s1 l))))
         = (\<lambda>l. node_y (nodeAt s (link_source (linkAt s l))))"
    by (simp add: y l)
  have len: "length (nodeStore s1) = length (nodeStore s)" by (simp add: s1_def)
  have t1: "targetLinks (nodeAt s1 t) = targetLinks (nodeAt s t)" for t
    by (simp add: s1_def nodeAt_updNode)
  have s1s: "sourceLinks (nodeAt s1 t)
     = (if t = r \<and> r < length (nodeStore s)
        then sort_key (\<lambda>l. node_y (nodeAt s (link_target (linkAt s l)))) (sourceLinks (nodeAt s r))
        else sourceLinks (nodeAt s t))" for t
    by (simp add: s1_def nodeAt_updNode)
  show "sourceLinks (nodeAt (sortLinks r s) q)
     = (if q = r \<and> r < length (nodeStore s)
        then sort_key (\<lambda>l. node_y (nodeAt s (link_target (linkAt s l)))) (sourceLinks (nodeAt s r))
        else sourceLinks (nodeAt s q))"
    unfolding e by (simp add: nodeAt_updNode len s1s)
  show "targetLinks (nodeAt (sortLinks r s) q)
     = (if q = r \<and> r < length (nodeStore s)
        then sort_key (\<lambda>l. node_y (nodeAt s (link_source (linkAt s l)))) (targetLinks (nodeAt s r))
        else targetLinks (nodeAt s q))"
    unfolding e k by (simp add: nodeAt_updNode len t1)
qed

lemma fold_fold_concat: "fold (\<lambda>xs st. fold f xs st) xss s = fold f (concat xss) s"
  by (induction xss arbitrary: s) simp_all

lemma fold_sortLinks_keys:
  "node_y (nodeAt (fold sortLinks rs s) q) = node_y (nodeAt s q)"
  "linkAt (fold sortLinks rs s) l = linkAt s l"
  "length (nodeStore (fold sortLinks rs s)) = length (nodeStore s)"
  by (induction rs arbitrary: s) (simp_all add: sortLinks_keys)

lemma fold_sortLinks_links:
  "sourceLinks (nodeAt (fold sortLinks rs s) q)
     = (if q \<in> set rs \<and> q < length (nodeStore s)
        then sort_key (\<lambda>l. node_y (nodeAt s (link_target (linkAt s l)))) (sourceLinks (nodeAt s q))
        else sourceLinks (nodeAt s q))
   \<and> targetLinks (nodeAt (fold sortLinks rs s) q)
     = (if q \<in> set rs \<and> q < length (nodeStore s)
        then sort_key (\<lambda>l. node_y (nodeAt s (link_source (linkAt s l)))) (targetLinks (nodeAt s q))
        else targetLinks (nodeAt s q))"
proof (induction rs arbitrary: s)
  case Nil
  then show ?case by simp
next
  case (Cons a rs)
  have k1: "(\<lambda>l. node_y (nodeAt (sortLinks a s) (link_target (linkAt (sortLinks a s) l))))
          = (\<lambda>l. node_y (nodeAt s (link_target (linkAt s l))))"
    and k2: "(\<lambda>l. node_y (nodeAt (sortLinks a s) (link_source (linkAt (sortLinks a s) l))))
          = (\<lambda>l. node_y (nodeAt s (link_source (linkAt s l))))"
    by (simp_all add: sortLinks_keys)
  note ih = Cons.IH[of "sortLinks a s", unfolded k1 k2 sortLinks_keys(3)]
  show ?case
    unfolding fold_Cons comp_apply using ih
    by (auto simp: sortLinks_links sort_key_idem)
qed

lemma set_concat_getColumns: "set (concat (getColumns s ns)) = set ns"
proof
  show "set (concat (getColumns s ns)) \<subseteq> set ns"
    by (auto dest: in_getColumns)
  show "set ns \<subseteq> set (concat (getColumns s ns))"
    using in_some_column[of _ ns s] by auto
qed

lemma sorted_columns_links:
  fixes s ns
  defines "s1 \<equiv> fold (\<lambda>column st. fold sortLinks column st) (getColumns s ns) s"
  shows "node_y (nodeAt s1 q) = node_y (nodeAt s q)"
    and "linkAt s1 l = linkAt s l"
    and "length (nodeStore s1) = length (nodeStore s)"
    and "sourceLinks (nodeAt s1 q)
     = (if q \<in> set ns \<and> q < length (nodeStore s)
        then sort_key (\<lambda>l. node_y (nodeAt s (link_target (linkAt s l)))) (sourceLinks (nodeAt s q))
        else sourceLinks (nodeAt s q))"
    and "targetLinks (nodeAt s1 q)
     = (if q \<in> set ns \<and> q < length (nodeStore s)
        then sort_key (\<lambda>l. node_y (nodeAt s (link_source (linkAt s l)))) (targetLinks (nodeAt s q))
        else targetLinks (nodeAt s q))"
proof -
  have e: "s1 = fold sortLinks (concat (getColumns s ns)) s"
    unfolding s1_def by (rule fold_fold_concat)
  show "node_y (nodeAt s1 q) = node_y (nodeAt s q)" "linkAt s1 l = linkAt s l"
    "length (nodeStore s1) = length (nodeStore s)"
    unfolding e by (rule fold_sortLinks_keys)+
  show "sourceLinks (nodeAt s1 q)
     = (if q \<in> set ns \<and> q < length (nodeStore s)
        then sort_key (\<lambda>l. node_y (nodeAt s (link_target (linkAt s l)))) (sourceLinks (nodeAt s q))
        else sourceLinks (nodeAt s q))"
    unfolding e using fold_sortLinks_links[of "concat (getColumns s ns)" s q]
    by (simp only: set_concat_getColumns)
  show "targetLinks (nodeAt s1 q)
     = (if q \<in> set ns \<and> q < length (nodeStore s)
        then sort_key (\<lambda>l. node_y (nodeAt s (link_source (linkAt s l)))) (targetLinks (nodeAt s q))
        else targetLinks (nodeAt s q))"
    unfolding e using fold_sortLinks_links[of "concat (getColumns s ns)" s q]
    by (simp only: set_concat_getColumns)
qed

subsection \<open>The two offset loops over the nodes\<close>

lemma linkSum_cong:
  assumes "map link_value (linkStore s') = map link_value (linkStore s)"
  shows "linkSum s' ls = linkSum s ls"
proof -
  have "link_value (linkAt s' l) = link_value (linkAt s l)" for l
    by (rule map_linkStore_linkAt[OF assms])
  then show ?thesis by (simp add: linkSum_sum_list)
qed

lemma fold_sourceOffsets_result:
  fixes s :: Store and r :: nat
  defines "ls \<equiv> sourceLinks (nodeAt s r)"
  defines "tot \<equiv> linkSum s ls"
  defines "P \<equiv> \<lambda>st. (\<forall>l\<in>set ls. link_width (linkAt st l)
                 = (if tot > 0 then link_value (linkAt s l) / tot * node_height (nodeAt s r) else 0))
              \<and> tiled (\<lambda>l. link_sy (linkAt st l)) (\<lambda>l. link_width (linkAt st l)) 0 ls"
  assumes d: "distinct ls" and rng: "\<forall>l\<in>set ls. l < length (linkStore s)"
    and dis: "\<forall>q\<in>set ns. q \<noteq> r \<longrightarrow> set (sourceLinks (nodeAt s q)) \<inter> set ls = {}"
    and ns: "nodeStore st = nodeStore s"
    and lv: "map link_value (linkStore st) = map link_value (linkStore s)"
    and start: "r \<in> set ns \<or> P st"
  shows "P (fold (\<lambda>r st. sourceOffsets (linkSum st (sourceLinks (nodeAt st r))) r
                              (sourceLinks (nodeAt st r)) 0 st) ns st)"
  using dis ns lv start
proof (induction ns arbitrary: st)
  case Nil
  then show ?case by simp
next
  case (Cons a ns)
  let ?F = "\<lambda>r st. sourceOffsets (linkSum st (sourceLinks (nodeAt st r))) r (sourceLinks (nodeAt st r)) 0 st"
  define st' where "st' = ?F a st"
  have na: "nodeAt st q = nodeAt s q" for q using Cons.prems(2) by (simp add: nodeAt_def)
  have ns': "nodeStore st' = nodeStore s" using Cons.prems(2) by (simp add: st'_def)
  have lv': "map link_value (linkStore st') = map link_value (linkStore s)"
    unfolding st'_def using sourceOffsets_frame[of link_value] Cons.prems(3) by simp
  have dis': "\<forall>q\<in>set ns. q \<noteq> r \<longrightarrow> set (sourceLinks (nodeAt s q)) \<inter> set ls = {}"
    using Cons.prems(1) by simp
  have len: "length (linkStore st) = length (linkStore s)"
    using Cons.prems(3) by (rule map_eq_imp_length_eq)
  have val: "link_value (linkAt st l) = link_value (linkAt s l)" for l
    by (rule map_linkStore_linkAt[OF Cons.prems(3)])
  have start': "r \<in> set ns \<or> P st'"
  proof (cases "a = r")
    case True
    have "st' = sourceOffsets tot r ls 0 st"
      by (simp add: st'_def True na ls_def tot_def linkSum_cong[OF Cons.prems(3)])
    moreover have "\<forall>l\<in>set ls. l < length (linkStore st)" using rng len by simp
    ultimately have "P st'"
      using sourceOffsets_result[OF d, of st tot r 0] by (simp add: P_def val na)
    then show ?thesis ..
  next
    case False
    with Cons.prems(1) have disj: "set (sourceLinks (nodeAt s a)) \<inter> set ls = {}" by simp
    have same: "linkAt st' l = linkAt st l" if "l \<in> set ls" for l
      unfolding st'_def using that disj by (intro sourceOffsets_other) (auto simp: na)
    from Cons.prems(4) False have "r \<in> set ns \<or> P st" by auto
    then show ?thesis
    proof
      assume "r \<in> set ns" then show ?thesis ..
    next
      assume p: "P st"
      have "tiled (\<lambda>l. link_sy (linkAt st' l)) (\<lambda>l. link_width (linkAt st' l)) 0 ls
          = tiled (\<lambda>l. link_sy (linkAt st l)) (\<lambda>l. link_width (linkAt st l)) 0 ls"
        by (rule tiled_cong) (simp_all add: same)
      with p have "P st'" by (simp add: P_def same)
      then show ?thesis ..
    qed
  qed
  have "P (fold ?F ns st')" by (rule Cons.IH[OF dis' ns' lv' start'])
  then show ?case by (simp add: st'_def)
qed

lemma fold_sourceOffsets_frame:
  assumes "\<And>k w y. g (k\<lparr>link_width := w, link_sy := y\<rparr>) = g k"
  shows "nodeStore (fold (\<lambda>r st. sourceOffsets (linkSum st (sourceLinks (nodeAt st r))) r
                              (sourceLinks (nodeAt st r)) 0 st) ns s) = nodeStore s
       \<and> map g (linkStore (fold (\<lambda>r st. sourceOffsets (linkSum st (sourceLinks (nodeAt st r))) r
                              (sourceLinks (nodeAt st r)) 0 st) ns s)) = map g (linkStore s)"
  by (induction ns arbitrary: s) (simp_all add: sourceOffsets_frame[of g, OF assms])

lemma fold_targetOffsets_frame:
  assumes "\<And>k y. g (k\<lparr>link_ty := y\<rparr>) = g k"
  shows "nodeStore (fold (\<lambda>r st. targetOffsets (targetLinks (nodeAt st r)) 0 st) ns s) = nodeStore s
       \<and> map g (linkStore (fold (\<lambda>r st. targetOffsets (targetLinks (nodeAt st r)) 0 st) ns s))
           = map g (linkStore s)"
  by (induction ns arbitrary: s) (simp_all add: targetOffsets_frame[of g, OF assms])


subsection \<open>What computeLinkOffsets leaves in the store\<close>

lemma sum_list_sort_key: "(\<Sum>x\<leftarrow>sort_key k xs. (f x :: real)) = (\<Sum>x\<leftarrow>xs. f x)"
proof -
  have "mset (map f (sort_key k xs)) = mset (map f xs)" by simp
  then show ?thesis by (metis sum_mset_sum_list)
qed

lemma wfGraph_source:
  assumes "wfGraph g s" and "r \<in> set (graph_nodes g)"
  shows "r < length (nodeStore s)" and "distinct (sourceLinks (nodeAt s r))"
    and "distinct (targetLinks (nodeAt s r))"
    and "\<And>l. l \<in> set (sourceLinks (nodeAt s r)) \<Longrightarrow> l < length (linkStore s)"
    and "\<And>l. l \<in> set (sourceLinks (nodeAt s r)) \<Longrightarrow> link_source (linkAt s l) = r"
    and "\<And>l. l \<in> set (sourceLinks (nodeAt s r)) \<Longrightarrow> link_target (linkAt s l) \<in> set (graph_nodes g)"
    and "\<And>l. l \<in> set (sourceLinks (nodeAt s r))
          \<Longrightarrow> l \<in> set (targetLinks (nodeAt s (link_target (linkAt s l))))"
    and "\<And>l. l \<in> set (targetLinks (nodeAt s r)) \<Longrightarrow> l < length (linkStore s)"
    and "\<And>l. l \<in> set (targetLinks (nodeAt s r)) \<Longrightarrow> link_target (linkAt s l) = r"
    and "\<And>l. l \<in> set (targetLinks (nodeAt s r)) \<Longrightarrow> link_source (linkAt s l) \<in> set (graph_nodes g)"
    and "\<And>l. l \<in> set (targetLinks (nodeAt s r))
          \<Longrightarrow> l \<in> set (sourceLinks (nodeAt s (link_source (linkAt s l))))"
  using assms unfolding wfGraph_def by blast+

lemma computeLinkOffsets_nodes:
  fixes ns s
  defines "s' \<equiv> computeLinkOffsets ns s"
  shows "sourceLinks (nodeAt s' q)
     = (if q \<in> set ns \<and> q < length (nodeStore s)
        then sort_key (\<lambda>l. node_y (nodeAt s (link_target (linkAt s l)))) (sourceLinks (nodeAt s q))
        else sourceLinks (nodeAt s q))"
    and "targetLinks (nodeAt s' q)
     = (if q \<in> set ns \<and> q < length (nodeStore s)
        then sort_key (\<lambda>l. node_y (nodeAt s (link_source (linkAt s l)))) (targetLinks (nodeAt s q))
        else targetLinks (nodeAt s q))"
proof -
  define s1 where "s1 = fold (\<lambda>column st. fold sortLinks column st) (getColumns s ns) s"
  define s2 where "s2 = fold (\<lambda>r st. sourceOffsets (linkSum st (sourceLinks (nodeAt st r))) r
                              (sourceLinks (nodeAt st r)) 0 st) ns s1"
  have e: "s' = fold (\<lambda>r st. targetOffsets (targetLinks (nodeAt st r)) 0 st) ns s2"
    by (simp add: s'_def computeLinkOffsets_def Let_def s1_def s2_def)
  have "nodeStore s' = nodeStore s2"
    unfolding e using fold_targetOffsets_frame[of link_width] by simp
  moreover have "nodeStore s2 = nodeStore s1"
    unfolding s2_def using fold_sourceOffsets_frame[of link_value] by simp
  ultimately have n: "nodeAt s' q = nodeAt s1 q" by (simp add: nodeAt_def)
  show "sourceLinks (nodeAt s' q)
     = (if q \<in> set ns \<and> q < length (nodeStore s)
        then sort_key (\<lambda>l. node_y (nodeAt s (link_target (linkAt s l)))) (sourceLinks (nodeAt s q))
        else sourceLinks (nodeAt s q))"
    unfolding n s1_def by (rule sorted_columns_links(4))
  show "targetLinks (nodeAt s' q)
     = (if q \<in> set ns \<and> q < length (nodeStore s)
        then sort_key (\<lambda>l. node_y (nodeAt s (link_source (linkAt s l)))) (targetLinks (nodeAt s q))
        else targetLinks (nodeAt s q))"
    unfolding n s1_def by (rule sorted_columns_links(5))
qed

lemma sorted_columns_fixed:
  "fixedPart (fold (\<lambda>column st. fold sortLinks column st) columns s) = fixedPart s"
  "linkStore (fold (\<lambda>column st. fold sortLinks column st) columns s) = linkStore s"
proof -
  show "fixedPart (fold (\<lambda>column st. fold sortLinks column st) columns s) = fixedPart s"
    by (rule fixedPart_fold) (rule fixedPart_fold_sortLinks)
  have "linkStore (fold sortLinks rs st) = linkStore st" for rs st
    using frame_fold[of node_y sortLinks rs st] sortLinks_frame[of node_y] by simp
  then show "linkStore (fold (\<lambda>column st. fold sortLinks column st) columns s) = linkStore s"
    by (simp add: fold_fold_concat)
qed

lemma computeLinkOffsets_source:
  fixes g s
  defines "s' \<equiv> computeLinkOffsets (graph_nodes g) s"
  assumes wf: "wfGraph g s" and r: "r \<in> set (graph_nodes g)"
  shows "(\<forall>l\<in>set (sourceLinks (nodeAt s r)). link_width (linkAt s' l)
            = (if linkSum s (sourceLinks (nodeAt s r)) > 0
               then link_value (linkAt s l) / linkSum s (sourceLinks (nodeAt s r))
                      * node_height (nodeAt s r)
               else 0))
       \<and> tiled (\<lambda>l. link_sy (linkAt s' l)) (\<lambda>l. link_width (linkAt s' l)) 0
           (sourceLinks (nodeAt s' r))"
proof -
  let ?ns = "graph_nodes g"
  let ?F = "\<lambda>r st. sourceOffsets (linkSum st (sourceLinks (nodeAt st r))) r
                              (sourceLinks (nodeAt st r)) 0 st"
  define s1 where "s1 = fold (\<lambda>column st. fold sortLinks column st) (getColumns s ?ns) s"
  define s2 where "s2 = fold ?F ?ns s1"
  have e: "s' = fold (\<lambda>r st. targetOffsets (targetLinks (nodeAt st r)) 0 st) ?ns s2"
    by (simp add: s'_def computeLinkOffsets_def Let_def s1_def s2_def)
  note srt = sorted_columns_links[of s ?ns, folded s1_def]
  note w = wfGraph_source[OF wf]
  have l1: "linkStore s1 = linkStore s" unfolding s1_def by (rule sorted_columns_fixed(2))
  have h1: "node_height (nodeAt s1 q) = node_height (nodeAt s q)" for q
    unfolding s1_def by (rule fixedPart_fields(8)[OF sorted_columns_fixed(1)])
  define ls where "ls = sourceLinks (nodeAt s1 r)"
  have ls: "ls = sort_key (\<lambda>l. node_y (nodeAt s (link_target (linkAt s l)))) (sourceLinks (nodeAt s r))"
    unfolding ls_def using srt(4)[of r] r w(1)[OF r] by simp
  have setls: "set ls = set (sourceLinks (nodeAt s r))" by (simp add: ls)
  have d: "distinct (sourceLinks (nodeAt s1 r))"
    using w(2)[OF r] by (simp add: ls[unfolded ls_def])
  have rng: "\<forall>l\<in>set (sourceLinks (nodeAt s1 r)). l < length (linkStore s1)"
    using w(4)[OF r] setls by (simp add: ls_def l1)
  have dis: "\<forall>q\<in>set ?ns. q \<noteq> r \<longrightarrow>
      set (sourceLinks (nodeAt s1 q)) \<inter> set (sourceLinks (nodeAt s1 r)) = {}"
  proof (intro ballI impI)
    fix q assume q: "q \<in> set ?ns" and ne: "q \<noteq> r"
    have sq: "set (sourceLinks (nodeAt s1 q)) = set (sourceLinks (nodeAt s q))"
      using srt(4)[of q] by (simp split: if_splits)
    show "set (sourceLinks (nodeAt s1 q)) \<inter> set (sourceLinks (nodeAt s1 r)) = {}"
      unfolding sq using setls[unfolded ls_def] w(5)[OF q] w(5)[OF r] ne by auto
  qed
  have tot: "linkSum s1 (sourceLinks (nodeAt s1 r)) = linkSum s (sourceLinks (nodeAt s r))"
    unfolding ls[unfolded ls_def] by (simp add: linkSum_sum_list srt(2) sum_list_sort_key)
  have P2: "(\<forall>l\<in>set (sourceLinks (nodeAt s1 r)). link_width (linkAt s2 l)
                 = (if linkSum s1 (sourceLinks (nodeAt s1 r)) > 0
                    then link_value (linkAt s1 l) / linkSum s1 (sourceLinks (nodeAt s1 r))
                           * node_height (nodeAt s1 r) else 0))
              \<and> tiled (\<lambda>l. link_sy (linkAt s2 l)) (\<lambda>l. link_width (linkAt s2 l)) 0
                  (sourceLinks (nodeAt s1 r))"
    unfolding s2_def
    by (rule fold_sourceOffsets_result[OF d rng dis refl refl]) (simp add: r)
  have n2: "nodeStore s2 = nodeStore s1"
    unfolding s2_def using fold_sourceOffsets_frame[of link_value] by simp
  have n': "nodeStore s' = nodeStore s2"
    unfolding e using fold_targetOffsets_frame[of link_width] by simp
  have na: "nodeAt s' q = nodeAt s1 q" for q using n2 n' by (simp add: nodeAt_def)
  have wd: "link_width (linkAt s' l) = link_width (linkAt s2 l)" for l
    unfolding e using fold_targetOffsets_frame[of link_width]
    by (intro map_linkStore_linkAt) simp
  have sy: "link_sy (linkAt s' l) = link_sy (linkAt s2 l)" for l
    unfolding e using fold_targetOffsets_frame[of link_sy]
    by (intro map_linkStore_linkAt) simp
  from P2 show ?thesis
    unfolding tot h1 srt(2) na wd sy setls[unfolded ls_def] .
qed


subsection \<open>Links and ids through the stages\<close>

lemma initialPlacement_frame:
  assumes "\<And>n d. g (n\<lparr>node_depth := d\<rparr>) = g n"
    and "\<And>n v. g (n\<lparr>node_value := v\<rparr>) = g n"
    and "\<And>n a b. g (n\<lparr>node_x := a, node_width := b\<rparr>) = g n"
    and "\<And>n a b. g (n\<lparr>node_y := a, node_height := b\<rparr>) = g n"
  shows "map g (nodeStore (initialPlacement cfg ns s)) = map g (nodeStore s)
       \<and> linkStore (initialPlacement cfg ns s) = linkStore s"
  unfolding initialPlacement_def
  using computeDepths_frame[of g cfg ns s, OF assms(1)]
    computeNodeValues_frame[of g ns "computeDepths cfg ns s", OF assms(2)]
    positionNodesX_frame[of g cfg ns "computeNodeValues ns (computeDepths cfg ns s)", OF assms(3)]
    initializeNodeY_frame[of g cfg ns
      "positionNodesX cfg ns (computeNodeValues ns (computeDepths cfg ns s))", OF assms(4)]
  by simp

lemma before_linkOffsets:
  assumes rel: "relaxNodePositions cfg ns (initialPlacement cfg ns s) = Inr s5"
  shows "sourceLinks (nodeAt s5 q) = sourceLinks (nodeAt s q)"
    and "targetLinks (nodeAt s5 q) = targetLinks (nodeAt s q)"
    and "node_id (nodeAt s5 q) = node_id (nodeAt s q)"
    and "linkStore s5 = linkStore s"
    and "length (nodeStore s5) = length (nodeStore s)"
proof -
  let ?s4 = "initialPlacement cfg ns s"
  note y = dropY_fields[OF dropY_relaxNodePositions[OF rel]]
  have l5: "linkStore s5 = linkStore ?s4"
    using dropY_relaxNodePositions[OF rel] by (simp add: dropY_def)
  have a: "map sourceLinks (nodeStore ?s4) = map sourceLinks (nodeStore s)"
    and b: "map targetLinks (nodeStore ?s4) = map targetLinks (nodeStore s)"
    and c: "map node_id (nodeStore ?s4) = map node_id (nodeStore s)"
    and l4: "linkStore ?s4 = linkStore s"
    using initialPlacement_frame[of sourceLinks cfg ns s]
      initialPlacement_frame[of targetLinks cfg ns s]
      initialPlacement_frame[of node_id cfg ns s] by simp_all
  show "sourceLinks (nodeAt s5 q) = sourceLinks (nodeAt s q)"
    using y(8)[of q] map_nodeStore_nodeAt[OF a, of q] by simp
  show "targetLinks (nodeAt s5 q) = targetLinks (nodeAt s q)"
    using y(9)[of q] map_nodeStore_nodeAt[OF b, of q] by simp
  show "node_id (nodeAt s5 q) = node_id (nodeAt s q)"
    using y(1)[of q] map_nodeStore_nodeAt[OF c, of q] by simp
  show "linkStore s5 = linkStore s" using l5 l4 by simp
  show "length (nodeStore s5) = length (nodeStore s)"
    using y(11) map_eq_imp_length_eq[OF c] by simp
qed

lemma wfGraph_cong:
  assumes "wfGraph g s"
    and "\<And>q. sourceLinks (nodeAt s' q) = sourceLinks (nodeAt s q)"
    and "\<And>q. targetLinks (nodeAt s' q) = targetLinks (nodeAt s q)"
    and "\<And>q. node_id (nodeAt s' q) = node_id (nodeAt s q)"
    and "linkStore s' = linkStore s"
    and "length (nodeStore s') = length (nodeStore s)"
  shows "wfGraph g s'"
proof -
  have l: "linkAt s' k = linkAt s k" for k using assms(5) by (simp add: linkAt_def)
  show ?thesis
    using assms(1) unfolding wfGraph_def assms(2,3,4,5,6) l .
qed

lemma wfGraph_before_linkOffsets:
  assumes "wfGraph g s"
    and "relaxNodePositions cfg (graph_nodes g) (initialPlacement cfg (graph_nodes g) s) = Inr s5"
  shows "wfGraph g s5"
  using assms(1) before_linkOffsets[OF assms(2)] by (rule wfGraph_cong)

section \<open>Outgoing links tile their node\<close>

lemma sum_list_scaled: "(\<Sum>x\<leftarrow>xs. f x / c * h) = (\<Sum>x\<leftarrow>xs. f x) / c * (h::real)"
  by (induction xs) (simp_all add: add_divide_distrib distrib_right)

text \<open>
  After \<open>compute\<close> on a well-formed graph, for a node whose outgoing links have
  positive total value, each outgoing link's width is (value / total outgoing value)
  times the node's height; the node's \<open>sourceLinks\<close> are sorted by the y of their
  targets, the first link's \<open>sy\<close> is 0 and each later \<open>sy\<close> is the \<open>sy\<close> of the link before
  it plus that link's width; the widths add up to the node's height (so the absolute
  error is below 1e-5).
\<close>

lemma outgoing_tiling:
  assumes "compute cfg g s = Inr (g', s')" and "wfGraph g s" and "r \<in> set (graph_nodes g)"
    and "0 < (\<Sum>l\<leftarrow>sourceLinks (nodeAt s r). link_value (linkAt s l))"
  shows "(\<forall>l\<in>set (sourceLinks (nodeAt s' r)).
            link_width (linkAt s' l)
              = link_value (linkAt s' l)
                  / (\<Sum>k\<leftarrow>sourceLinks (nodeAt s' r). link_value (linkAt s' k))
                  * node_height (nodeAt s' r))
       \<and> sorted (map (\<lambda>l. node_y (nodeAt s' (link_target (linkAt s' l)))) (sourceLinks (nodeAt s' r)))
       \<and> link_sy (linkAt s' (sourceLinks (nodeAt s' r) ! 0)) = 0
       \<and> (\<forall>i. Suc i < length (sourceLinks (nodeAt s' r)) \<longrightarrow>
             link_sy (linkAt s' (sourceLinks (nodeAt s' r) ! Suc i))
               = link_sy (linkAt s' (sourceLinks (nodeAt s' r) ! i))
                 + link_width (linkAt s' (sourceLinks (nodeAt s' r) ! i)))
       \<and> (\<Sum>l\<leftarrow>sourceLinks (nodeAt s' r). link_width (linkAt s' l)) = node_height (nodeAt s' r)
       \<and> \<bar>(\<Sum>l\<leftarrow>sourceLinks (nodeAt s' r). link_width (linkAt s' l)) - node_height (nodeAt s' r)\<bar>
           < 1 / 100000"
proof -
  let ?ns = "graph_nodes g"
  from assms(3) have ne: "?ns \<noteq> []" by auto
  from compute_Inr[OF assms(1) ne] obtain s5 where
    rel: "relaxNodePositions cfg ?ns (initialPlacement cfg ?ns s) = Inr s5"
    and fin: "s' = computeLinkOffsets ?ns s5" by blast
  note b = before_linkOffsets[OF rel]
  have wf5: "wfGraph g s5" by (rule wfGraph_before_linkOffsets[OF assms(2) rel])
  note w = wfGraph_source[OF wf5]
  have fp: "fixedPart s' = fixedPart s5" by (simp add: fin fixedPart_computeLinkOffsets)
  note f = fixedPart_fields[OF fp]
  define ls0 where "ls0 = sourceLinks (nodeAt s5 r)"
  define ls where "ls = sourceLinks (nodeAt s' r)"
  define tot where "tot = linkSum s5 ls0"
  have ls: "ls = sort_key (\<lambda>l. node_y (nodeAt s5 (link_target (linkAt s5 l)))) ls0"
    unfolding ls_def ls0_def fin using computeLinkOffsets_nodes(1)[of ?ns s5 r] assms(3) w(1)[OF assms(3)]
    by simp
  have setls: "set ls = set ls0" by (simp add: ls)
  have key: "(\<lambda>l. node_y (nodeAt s' (link_target (linkAt s' l))))
           = (\<lambda>l. node_y (nodeAt s5 (link_target (linkAt s5 l))))"
    by (simp add: f(6) f(12))
  have srt: "sorted (map (\<lambda>l. node_y (nodeAt s' (link_target (linkAt s' l)))) ls)"
    unfolding key ls by simp
  have val: "link_value (linkAt s' l) = link_value (linkAt s5 l)" for l by (rule f(13))
  have l5: "linkAt s5 l = linkAt s l" for l using b(4) by (simp add: linkAt_def)
  have tot_pos: "0 < tot"
    using assms(4) by (simp add: tot_def ls0_def linkSum_sum_list b(1) l5)
  have tot': "(\<Sum>k\<leftarrow>ls. link_value (linkAt s' k)) = tot"
    by (simp add: val ls sum_list_sort_key tot_def linkSum_sum_list)
  from computeLinkOffsets_source[OF wf5 assms(3)]
  have wd: "\<forall>l\<in>set ls0. link_width (linkAt s' l)
              = (if tot > 0 then link_value (linkAt s5 l) / tot * node_height (nodeAt s5 r) else 0)"
    and til: "tiled (\<lambda>l. link_sy (linkAt s' l)) (\<lambda>l. link_width (linkAt s' l)) 0 ls"
    unfolding fin[symmetric] ls0_def[symmetric] tot_def[symmetric] ls_def[symmetric] by blast+
  have wd': "link_width (linkAt s' l) = link_value (linkAt s' l) / tot * node_height (nodeAt s' r)"
    if "l \<in> set ls" for l
    using wd that tot_pos by (simp add: setls val f(8))
  have ne_ls: "ls \<noteq> []"
  proof
    assume "ls = []"
    then have "tot = 0" using tot' by simp
    with tot_pos show False by simp
  qed
  note tn = tiled_nth[OF til]
  have sum: "(\<Sum>l\<leftarrow>ls. link_width (linkAt s' l)) = node_height (nodeAt s' r)"
  proof -
    have "(\<Sum>l\<leftarrow>ls. link_width (linkAt s' l))
        = (\<Sum>l\<leftarrow>ls. link_value (linkAt s' l) / tot * node_height (nodeAt s' r))"
      by (intro arg_cong[where f = sum_list] map_cong refl) (simp add: wd')
    also have "\<dots> = tot / tot * node_height (nodeAt s' r)"
      by (simp only: sum_list_scaled tot')
    finally show ?thesis using tot_pos by simp
  qed
  show ?thesis
    unfolding ls_def[symmetric] tot'
    using wd' srt tn ne_ls sum by simp
qed

section \<open>Incoming links keep the width set at their source\<close>




section \<open>Columns stay free of overlaps\<close>

subsection \<open>Chains of separated nodes\<close>

lemma separated_cong:
  assumes "nodeAt s' a = nodeAt s a" and "nodeAt s' b = nodeAt s b"
  shows "separated cfg s' a b = separated cfg s a b"
  by (simp add: separated_def assms)

lemma successively_separated_cong:
  assumes "\<And>q. q \<in> set col \<Longrightarrow> nodeAt s' q = nodeAt s q"
  shows "successively (separated cfg s') col = successively (separated cfg s) col"
proof (rule successively_cong)
  fix a b assume "a \<in> set col" "b \<in> set col"
  then show "separated cfg s' a b = separated cfg s a b"
    by (simp add: separated_def assms)
qed simp



subsection \<open>Stacking a column\<close>



subsection \<open>Pushing down and pushing up\<close>





subsection \<open>Collision resolution separates a column\<close>


subsection \<open>One column of a relaxation pass\<close>

lemma fold_moveNode_other:
  "q \<notin> set col \<Longrightarrow> nodeAt (fold (moveNode dir d) col s) q = nodeAt s q"
proof (induction col arbitrary: s)
  case Nil
  then show ?case by simp
next
  case (Cons a col)
  then have "nodeAt (moveNode dir d a s) q = nodeAt s q"
    by (simp add: moveNode_def Let_def nodeAt_updNode)
  with Cons show ?case by simp
qed


subsection \<open>The relaxation loop keeps every column free of overlaps\<close>





subsection \<open>The initial placement leaves every column free of overlaps\<close>


lemma stackColumn_length [simp]:
  "length (nodeStore (stackColumn cfg gs col y s)) = length (nodeStore s)"
proof -
  have "map node_id (nodeStore (stackColumn cfg gs col y s)) = map node_id (nodeStore s)"
    using stackColumn_frame[of node_id cfg gs col y s] by simp
  then show ?thesis by (rule map_eq_imp_length_eq)
qed









section \<open>compute returns on closed graphs\<close>

subsection \<open>Relaxation returns when no column is empty\<close>

lemma resolveCollisions_Inr:
  assumes "col \<noteq> []"
  shows "\<exists>s'. resolveCollisions cfg col s = Inr (sort_key (\<lambda>r. node_y (nodeAt s r)) col, s')"
proof -
  have "sort_key (\<lambda>r. node_y (nodeAt s r)) col \<noteq> []"
    using assms by (metis length_0_conv length_sort)
  then show ?thesis by (simp add: resolveCollisions_def Let_def)
qed

lemma relaxColumn_Inr:
  assumes "cols ! c \<noteq> []"
  shows "\<exists>col' s'. relaxColumn cfg dir dm c (cols, s) = Inr (cols[c := col'], s') \<and> col' \<noteq> []"
proof -
  let ?s1 = "fold (moveNode dir dm) (cols ! c) s"
  from resolveCollisions_Inr[OF assms, of cfg ?s1] obtain s' where
    "resolveCollisions cfg (cols ! c) ?s1 = Inr (sort_key (\<lambda>r. node_y (nodeAt ?s1 r)) (cols ! c), s')"
    by blast
  moreover have "sort_key (\<lambda>r. node_y (nodeAt ?s1 r)) (cols ! c) \<noteq> []"
    using assms by (metis length_0_conv length_sort)
  ultimately show ?thesis by (auto simp: relaxColumn_def Let_def)
qed

lemma relaxPass_Inr:
  assumes "\<forall>c<length cols. cols ! c \<noteq> []" and "\<forall>c\<in>set cs. c < length cols"
  shows "\<exists>cols' s'. relaxPass cfg dir dm cs (cols, s) = Inr (cols', s')
           \<and> length cols' = length cols \<and> (\<forall>c<length cols'. cols' ! c \<noteq> [])"
  using assms
proof (induction cs arbitrary: cols s)
  case Nil
  then show ?case by simp
next
  case (Cons c cs)
  from Cons.prems have c: "c < length cols" and cne: "cols ! c \<noteq> []" by auto
  from relaxColumn_Inr[OF cne, of cfg dir dm s] obtain col' s1 where
    a: "relaxColumn cfg dir dm c (cols, s) = Inr (cols[c := col'], s1)" and ne: "col' \<noteq> []"
    by blast
  have f: "\<forall>k<length (cols[c := col']). cols[c := col'] ! k \<noteq> []"
    using Cons.prems(1) ne c by (auto simp: nth_list_update)
  have g: "\<forall>k\<in>set cs. k < length (cols[c := col'])" using Cons.prems(2) by simp
  from Cons.IH[OF f g, of s1] a show ?case by auto
qed

lemma relaxIteration_Inr:
  assumes "\<forall>c<length cols. cols ! c \<noteq> []"
  shows "\<exists>cols' s'. relaxIteration cfg dm (cols, s) = Inr (cols', s')
           \<and> length cols' = length cols \<and> (\<forall>c<length cols'. cols' ! c \<noteq> [])"
proof -
  have i1: "\<forall>c\<in>set [1 ..< length cols]. c < length cols" by simp
  from relaxPass_Inr[OF assms i1, of cfg DirTarget dm s] obtain cols1 s1 where
    a: "relaxPass cfg DirTarget dm [1 ..< length cols] (cols, s) = Inr (cols1, s1)"
    and l1: "length cols1 = length cols" and n1: "\<forall>c<length cols1. cols1 ! c \<noteq> []" by blast
  have i2: "\<forall>c\<in>set (rev [0 ..< length cols1 - 1]). c < length cols1" by auto
  from relaxPass_Inr[OF n1 i2, of cfg DirSource dm s1] obtain cols2 s2 where
    b: "relaxPass cfg DirSource dm (rev [0 ..< length cols1 - 1]) (cols1, s1) = Inr (cols2, s2)"
    and l2: "length cols2 = length cols1" and n2: "\<forall>c<length cols2. cols2 ! c \<noteq> []" by blast
  from a b l1 l2 n2 show ?thesis by (simp add: relaxIteration_def)
qed

lemma relaxLoop_Inr:
  assumes "\<forall>c<length (fst st). fst st ! c \<noteq> []"
  shows "\<exists>st'. relaxLoop cfg i st = Inr st'"
  using assms
proof (induction cfg i st rule: relaxLoop.induct)
  case (1 cfg i st)
  show ?case
  proof (cases "real i < iterations cfg")
    case True
    from relaxIteration_Inr[OF "1.prems", of cfg "damping cfg i" "snd st"] obtain cols' s' where
      a: "relaxIteration cfg (damping cfg i) st = Inr (cols', s')"
      and n: "\<forall>c<length cols'. cols' ! c \<noteq> []" by auto
    from "1.IH"[OF True a] n obtain st' where "relaxLoop cfg (Suc i) (cols', s') = Inr st'" by auto
    with True a show ?thesis by (subst relaxLoop.simps) simp
  next
    case False
    then show ?thesis by (subst relaxLoop.simps) simp
  qed
qed

lemma relaxNodePositions_Inr:
  assumes "columnsFilled ns s"
  shows "\<exists>s'. relaxNodePositions cfg ns s = Inr s'"
proof -
  have "\<forall>c<length (getColumns s ns). getColumns s ns ! c \<noteq> []"
  proof (intro allI impI)
    fix c assume "c < length (getColumns s ns)"
    then have c: "c \<le> maxDepthOf s ns" by (simp add: length_getColumns)
    with assms obtain r where "r \<in> set ns" "node_depth (nodeAt s r) = c"
      unfolding columnsFilled_def by blast
    then show "getColumns s ns ! c \<noteq> []"
      by (auto simp: nth_getColumns[OF c] filter_empty_conv)
  qed
  from relaxLoop_Inr[of "(getColumns s ns, s)" cfg 0] this
  obtain st' where "relaxLoop cfg 0 (getColumns s ns, s) = Inr st'" by auto
  then show ?thesis by (cases st') (simp add: relaxNodePositions_def)
qed

section \<open>The store keeps its nodes and links\<close>

lemma compute_shape:
  assumes "compute cfg g s = Inr (g', s')"
  shows "map node_id (nodeStore s') = map node_id (nodeStore s)"
    and "map linkKey (linkStore s') = map linkKey (linkStore s)"
proof -
  have "map node_id (nodeStore s') = map node_id (nodeStore s)
      \<and> map linkKey (linkStore s') = map linkKey (linkStore s)"
  proof (cases "graph_nodes g = []")
    case True
    with assms show ?thesis by (simp add: compute_stages)
  next
    case False
    let ?s4 = "initialPlacement cfg (graph_nodes g) s"
    from compute_Inr[OF assms False] obtain s5 where
      rel: "relaxNodePositions cfg (graph_nodes g) ?s4 = Inr s5" and
      fin: "s' = computeLinkOffsets (graph_nodes g) s5"
      by blast
    have fp: "fixedPart s' = fixedPart s5" by (simp add: fin fixedPart_computeLinkOffsets)
    have dy: "dropY s5 = dropY ?s4" by (rule dropY_relaxNodePositions[OF rel])
    have a: "map node_id (nodeStore ?s4) = map node_id (nodeStore s)"
      and l4: "linkStore ?s4 = linkStore s"
      using initialPlacement_frame[of node_id cfg "graph_nodes g" s] by simp_all
    from fp have k: "map nodeKey (nodeStore s') = map nodeKey (nodeStore s5)"
      and lk: "map linkKey (linkStore s') = map linkKey (linkStore s5)"
      by (simp_all add: fixedPart_def)
    have "map node_id (nodeStore s') = map (fst \<circ> nodeKey) (nodeStore s')"
      by (simp add: nodeKey_def comp_def)
    also have "\<dots> = map (fst \<circ> nodeKey) (nodeStore s5)"
      using arg_cong[OF k, of "map fst"] by simp
    also have "\<dots> = map node_id (nodeStore s5)" by (simp add: nodeKey_def comp_def)
    finally have b: "map node_id (nodeStore s') = map node_id (nodeStore s5)" .
    from dy have m: "map (\<lambda>n. n\<lparr>node_y := 0\<rparr>) (nodeStore s5) = map (\<lambda>n. n\<lparr>node_y := 0\<rparr>) (nodeStore ?s4)"
      and l5: "linkStore s5 = linkStore ?s4"
      by (simp_all add: dropY_def)
    have "map node_id (nodeStore s5) = map (node_id \<circ> (\<lambda>n. n\<lparr>node_y := 0\<rparr>)) (nodeStore s5)"
      by (simp add: comp_def)
    also have "\<dots> = map (node_id \<circ> (\<lambda>n. n\<lparr>node_y := 0\<rparr>)) (nodeStore ?s4)"
      using arg_cong[OF m, of "map node_id"] by simp
    also have "\<dots> = map node_id (nodeStore ?s4)" by (simp add: comp_def)
    finally have c: "map node_id (nodeStore s5) = map node_id (nodeStore ?s4)" .
    from a b c lk l5 l4 show ?thesis by simp
  qed
  then show "map node_id (nodeStore s') = map node_id (nodeStore s)"
    and "map linkKey (linkStore s') = map linkKey (linkStore s)" by simp_all
qed

section \<open>Graphs without a source\<close>

text \<open>
  C8: on a graph with at least one node in which every node has an incoming link (no
  source), \<open>compute\<close> returns without an exception, for every configuration. The store
  it returns holds the same node objects, with the ids they had, and the same links
  with their ends and values; every node of the graph has depth 0 in it, whatever its
  depth was before.
\<close>

theorem compute_no_source:
  assumes "graph_nodes g \<noteq> []"
    and "\<forall>r\<in>set (graph_nodes g). targetLinks (nodeAt s r) \<noteq> []"
  shows "\<exists>s'. compute cfg g s = Inr (g, s')
           \<and> length (nodeStore s') = length (nodeStore s)
           \<and> map node_id (nodeStore s') = map node_id (nodeStore s)
           \<and> map linkKey (linkStore s') = map linkKey (linkStore s)
           \<and> (\<forall>r\<in>set (graph_nodes g).
                 node_depth (nodeAt s' r) = 0
               \<and> (r < length (nodeStore s) \<longrightarrow>
                    r < length (nodeStore s') \<and> node_depth (nodeStore s' ! r) = 0))"
proof -
  let ?ns = "graph_nodes g"
  let ?s0 = "initialPlacement cfg ?ns s"
  have d0: "node_depth (nodeAt ?s0 r) = 0" if "r \<in> set ?ns" for r
    using that by (simp add: initialPlacement_depth computeDepths_no_source[OF assms(2)])
  have "maxDepthOf ?s0 ?ns = 0"
    using maxDepthOf_attained[of ?s0 ?ns] d0 by auto
  then have "length (getColumns ?s0 ?ns) \<le> 1" by (simp add: length_getColumns)
  then have "relaxLoop cfg 0 (getColumns ?s0 ?ns, ?s0) = Inr (getColumns ?s0 ?ns, ?s0)"
    by (intro relaxLoop_single) simp
  then have rel: "relaxNodePositions cfg ?ns ?s0 = Inr ?s0"
    by (simp add: relaxNodePositions_def)
  let ?s' = "computeLinkOffsets ?ns ?s0"
  have c: "compute cfg g s = Inr (g, ?s')"
    using assms(1) rel by (simp add: compute_stages)
  have ids: "map node_id (nodeStore ?s') = map node_id (nodeStore s)"
    and lks: "map linkKey (linkStore ?s') = map linkKey (linkStore s)"
    by (rule compute_shape[OF c])+
  from ids have len: "length (nodeStore ?s') = length (nodeStore s)"
    by (rule map_eq_imp_length_eq)
  have dp: "node_depth (nodeAt ?s' r) = 0" if "r \<in> set ?ns" for r
    using layout_frame(3)[OF rel refl, of r] d0[OF that] by simp
  have "node_depth (nodeAt ?s' r) = 0
      \<and> (r < length (nodeStore s) \<longrightarrow> r < length (nodeStore ?s') \<and> node_depth (nodeStore ?s' ! r) = 0)"
    if "r \<in> set ?ns" for r
    using dp[OF that] len by (auto simp: nodeAt_def)
  with c len ids lks show ?thesis by blast
qed

theorem compute_no_source_witness:
  "graph_nodes cycleGraph \<noteq> []
   \<and> targetLinks (nodeAt relaidCycleStore 0) \<noteq> [] \<and> targetLinks (nodeAt relaidCycleStore 1) \<noteq> []
   \<and> node_depth (nodeStore relaidCycleStore ! 0) = 2 \<and> node_depth (nodeStore relaidCycleStore ! 1) = 1
   \<and> (\<exists>s'. compute DEFAULT_CONFIG cycleGraph relaidCycleStore = Inr (cycleGraph, s')
          \<and> length (nodeStore s') = 2
          \<and> map node_id (nodeStore s') = [''A'', ''B'']
          \<and> node_depth (nodeStore s' ! 0) = 0 \<and> node_depth (nodeStore s' ! 1) = 0)"
  using compute_no_source [of cycleGraph relaidCycleStore DEFAULT_CONFIG]
  by (auto simp: cycleGraph_def relaidCycleStore_def makeNode_def nodeAt_def)

section \<open>A reference run: the branch graph with two iterations\<close>

subsection \<open>Depths\<close>

lemma branch_sources:
  "filter (\<lambda>r. length (targetLinks (nodeAt branchStore r)) = 0) [0, 1, 2, 3] = [0]"
  by (simp add: branchStore_def makeNode_def nodeAt_def)

lemma branch_layer0:
  "visitLayer 0 [0] (branchStore, {}, []) = (setDepth 0 0 branchStore, {''A''}, [1, 2])"
  by (simp add: branchStore_def makeNode_def makeLink_def nodeAt_def linkAt_def updNode_def
      setDepth_def pushTargets_def Let_def)

lemma branch_layer1:
  "visitLayer (Suc 0) [1, 2] (setDepth 0 0 branchStore, {''A''}, [])
     = (setDepth 2 1 (setDepth 1 1 (setDepth 0 0 branchStore)), {''A'', ''B'', ''C''}, [3])"
  by (simp add: branchStore_def makeNode_def makeLink_def nodeAt_def linkAt_def updNode_def
      setDepth_def pushTargets_def Let_def insert_commute)

lemma branch_layer2:
  "visitLayer (Suc (Suc 0)) [3] (setDepth 2 1 (setDepth 1 1 (setDepth 0 0 branchStore)), {''A'', ''B'', ''C''}, [])
     = (setDepth 3 2 (setDepth 2 1 (setDepth 1 1 (setDepth 0 0 branchStore))),
        {''A'', ''B'', ''C'', ''D''}, [])"
  by (simp add: branchStore_def makeNode_def makeLink_def nodeAt_def linkAt_def updNode_def
      setDepth_def pushTargets_def Let_def insert_commute)

lemma branch_bfs:
  "bfs branchStore {} [0] 0
     = (setDepth 3 2 (setDepth 2 1 (setDepth 1 1 (setDepth 0 0 branchStore))),
        {''A'', ''B'', ''C'', ''D''})"
  apply (subst bfs.simps, simp only: branch_layer0 list.simps if_False prod.case)
  apply (subst bfs.simps, simp only: branch_layer1 list.simps if_False prod.case)
  apply (subst bfs.simps, simp only: branch_layer2 list.simps if_False prod.case)
  apply (subst bfs.simps, simp)
  done

lemma branch_unvisited:
  "markUnvisited {''A'', ''B'', ''C'', ''D''} [0, 1, 2, 3]
     (setDepth 3 2 (setDepth 2 1 (setDepth 1 1 (setDepth 0 0 branchStore))))
   = setDepth 3 2 (setDepth 2 1 (setDepth 1 1 (setDepth 0 0 branchStore)))"
  by (simp add: markUnvisited_def branchStore_def makeNode_def nodeAt_def updNode_def setDepth_def)

lemma branch_justify:
  "justifySinks [0, 1, 2, 3] (setDepth 3 2 (setDepth 2 1 (setDepth 1 1 (setDepth 0 0 branchStore))))
   = branchDepths"
  by (simp add: justifySinks_def maxDepthOf_def branchStore_def branchDepths_def makeNode_def makeLink_def
      nodeAt_def updNode_def setDepth_def Let_def)

lemma branch_depths: "computeDepths twoIterations [0, 1, 2, 3] branchStore = branchDepths"
proof -
  have ne: "length [0::nat] \<noteq> 0" by simp
  have j: "nodeAlign twoIterations = Justify" by (simp add: twoIterations_def DEFAULT_CONFIG_def)
  show ?thesis
    unfolding computeDepths_def Let_def branch_sources
    by (simp only: ne if_False branch_bfs prod.case branch_unvisited j branch_justify) simp
qed

subsection \<open>Values, x and the initial y\<close>

lemma branch_values: "computeNodeValues [0, 1, 2, 3] branchDepths = branchValues"
  by (simp add: computeNodeValues_def linkSum_def branchValues_def branchDepths_def
      nodeAt_def linkAt_def updNode_def Let_def)

lemma branch_x: "positionNodesX twoIterations [0, 1, 2, 3] branchValues = branchX"
  by (simp add: positionNodesX_def maxDepthOf_def twoIterations_def DEFAULT_CONFIG_def
      branchValues_def branchX_def nodeAt_def updNode_def Let_def)

lemma branch_columns_x: "getColumns branchX [0, 1, 2, 3] = [[0], [1], [2, 3]]"
  by (simp add: getColumns_def maxDepthOf_def branchX_def nodeAt_def Let_def)

lemma branch_scale: "computeGlobalScale twoIterations branchX [[0], [1], [2, 3]] = 115"
  by (simp add: computeGlobalScale_def scaleStep_def columnValue_def twoIterations_def
      DEFAULT_CONFIG_def branchX_def nodeAt_def Let_def)

lemma branch_stack:
  "fold (\<lambda>column st. stackColumn twoIterations 115
                   (sort_key (\<lambda>r. - node_value (nodeAt st r)) column) (pad_top (padding twoIterations)) st)
     [[0], [1], [2, 3]] branchX = branchAt 20 20 264 20"
  by (simp add: twoIterations_def DEFAULT_CONFIG_def branchX_def branchAt_def nodeAt_def updNode_def Let_def)

lemma branch_y: "initializeNodeY twoIterations [0, 1, 2, 3] branchX = branchAt 20 20 264 20"
  unfolding initializeNodeY_def Let_def branch_columns_x branch_scale by (rule branch_stack)

lemma branch_placed: "initialPlacement twoIterations [0, 1, 2, 3] branchStore = branchAt 20 20 264 20"
  unfolding initialPlacement_def
  by (simp only: branch_depths branch_values branch_x branch_y)

lemma branch_columns: "getColumns (branchAt ya yb yc yd) [0, 1, 2, 3] = [[0], [1], [2, 3]]"
  by (simp add: getColumns_def maxDepthOf_def branchAt_def nodeAt_def Let_def)

subsection \<open>The first iteration, with damping 1\<close>

lemma branch_forward0_column1:
  "relaxColumn twoIterations DirTarget 1 1 ([[0], [1], [2, 3]], branchAt 20 20 264 20)
     = Inr ([[0], [1], [2, 3]], branchAt 20 (155 / 2) 264 20)"
  by (simp add: relaxColumn_def moveNode_def resolveCollisions_def weightedCenter_def nodeCenter_def
      linksOf_def otherEnd_def twoIterations_def DEFAULT_CONFIG_def branchAt_def nodeAt_def linkAt_def
      updNode_def Let_def)

lemma branch_forward0_column2:
  "relaxColumn twoIterations DirTarget 1 2 ([[0], [1], [2, 3]], branchAt 20 (155 / 2) 264 20)
     = Inr ([[0], [1], [3, 2]], branchAt 20 (155 / 2) 365 121)"
  by (simp add: relaxColumn_def moveNode_def resolveCollisions_def weightedCenter_def nodeCenter_def
      linksOf_def otherEnd_def twoIterations_def DEFAULT_CONFIG_def branchAt_def nodeAt_def linkAt_def
      updNode_def Let_def)

lemma branch_backward0_column1:
  "relaxColumn twoIterations DirSource 1 1 ([[0], [1], [3, 2]], branchAt 20 (155 / 2) 365 121)
     = Inr ([[0], [1], [3, 2]], branchAt 20 (127 / 2) 365 121)"
  by (simp add: relaxColumn_def moveNode_def resolveCollisions_def weightedCenter_def nodeCenter_def
      linksOf_def otherEnd_def twoIterations_def DEFAULT_CONFIG_def branchAt_def nodeAt_def linkAt_def
      updNode_def Let_def)

lemma branch_backward0_column0:
  "relaxColumn twoIterations DirSource 1 0 ([[0], [1], [3, 2]], branchAt 20 (127 / 2) 365 121)
     = Inr ([[0], [1], [3, 2]], branchAt 20 (127 / 2) 365 121)"
  by (simp add: relaxColumn_def moveNode_def resolveCollisions_def weightedCenter_def nodeCenter_def
      linksOf_def otherEnd_def twoIterations_def DEFAULT_CONFIG_def branchAt_def nodeAt_def linkAt_def
      updNode_def Let_def)

lemma branch_iteration0:
  "relaxIteration twoIterations 1 ([[0], [1], [2, 3]], branchAt 20 20 264 20)
     = Inr ([[0], [1], [3, 2]], branchAt 20 (127 / 2) 365 121)"
proof -
  have f: "[1 ..< length (fst ([[0::nat], [1], [2, 3]], branchAt 20 20 264 20))] = [1, 2]"
    by (simp add: upt_conv_Cons)
  have b: "rev [0 ..< length (fst ([[0::nat], [1], [3, 2]], branchAt 20 (155 / 2) 365 121)) - 1] = [1, 0]"
    by (simp add: upt_conv_Cons)
  show ?thesis
    unfolding relaxIteration_def f
    by (simp only: relaxPass.simps branch_forward0_column1 branch_forward0_column2 sum.case b
        branch_backward0_column1 branch_backward0_column0)
qed

subsection \<open>The second iteration, with damping 1/2\<close>

lemma branch_forward1_column1:
  "relaxColumn twoIterations DirTarget (1 / 2) 1 ([[0], [1], [3, 2]], branchAt 20 (127 / 2) 365 121)
     = Inr ([[0], [1], [3, 2]], branchAt 20 (141 / 2) 365 121)"
  by (simp add: relaxColumn_def moveNode_def resolveCollisions_def weightedCenter_def nodeCenter_def
      linksOf_def otherEnd_def twoIterations_def DEFAULT_CONFIG_def branchAt_def nodeAt_def linkAt_def
      updNode_def Let_def)

lemma branch_forward1_column2:
  "relaxColumn twoIterations DirTarget (1 / 2) 2 ([[0], [1], [3, 2]], branchAt 20 (141 / 2) 365 121)
     = Inr ([[0], [1], [3, 2]], branchAt 20 (141 / 2) 365 121)"
  by (simp add: relaxColumn_def moveNode_def resolveCollisions_def weightedCenter_def nodeCenter_def
      linksOf_def otherEnd_def twoIterations_def DEFAULT_CONFIG_def branchAt_def nodeAt_def linkAt_def
      updNode_def Let_def)

lemma branch_backward1_column1:
  "relaxColumn twoIterations DirSource (1 / 2) 1 ([[0], [1], [3, 2]], branchAt 20 (141 / 2) 365 121)
     = Inr ([[0], [1], [3, 2]], branchAt 20 67 365 121)"
  by (simp add: relaxColumn_def moveNode_def resolveCollisions_def weightedCenter_def nodeCenter_def
      linksOf_def otherEnd_def twoIterations_def DEFAULT_CONFIG_def branchAt_def nodeAt_def linkAt_def
      updNode_def Let_def)

lemma branch_backward1_column0:
  "relaxColumn twoIterations DirSource (1 / 2) 0 ([[0], [1], [3, 2]], branchAt 20 67 365 121)
     = Inr ([[0], [1], [3, 2]], branchAt 20 67 365 121)"
  by (simp add: relaxColumn_def moveNode_def resolveCollisions_def weightedCenter_def nodeCenter_def
      linksOf_def otherEnd_def twoIterations_def DEFAULT_CONFIG_def branchAt_def nodeAt_def linkAt_def
      updNode_def Let_def)

lemma branch_iteration1:
  "relaxIteration twoIterations (1 / 2) ([[0], [1], [3, 2]], branchAt 20 (127 / 2) 365 121)
     = Inr ([[0], [1], [3, 2]], branchAt 20 67 365 121)"
proof -
  have f: "[1 ..< length (fst ([[0::nat], [1], [3, 2]], branchAt 20 (127 / 2) 365 121))] = [1, 2]"
    by (simp add: upt_conv_Cons)
  have b: "rev [0 ..< length (fst ([[0::nat], [1], [3, 2]], branchAt 20 (141 / 2) 365 121)) - 1] = [1, 0]"
    by (simp add: upt_conv_Cons)
  show ?thesis
    unfolding relaxIteration_def f
    by (simp only: relaxPass.simps branch_forward1_column1 branch_forward1_column2 sum.case b
        branch_backward1_column1 branch_backward1_column0)
qed

subsection \<open>Link offsets\<close>

lemma branch_sorted_links:
  "fold (\<lambda>column st. fold sortLinks column st) [[0], [1], [2, 3]] (branchAt 20 67 365 121)
     = branchAt 20 67 365 121"
  by (simp add: sortLinks_def branchAt_def nodeAt_def linkAt_def updNode_def Let_def)

lemma branch_source_offsets:
  "fold (\<lambda>r st. sourceOffsets (linkSum st (sourceLinks (nodeAt st r))) r (sourceLinks (nodeAt st r)) 0 st)
     [0, 1, 2, 3] (branchAt 20 67 365 121) = branchLayout"
  by (simp add: linkSum_def branchAt_def branchLayout_def nodeAt_def linkAt_def updLink_def Let_def)

lemma branch_target_offsets:
  "fold (\<lambda>r st. targetOffsets (targetLinks (nodeAt st r)) 0 st) [0, 1, 2, 3] branchLayout = branchLayout"
  by (simp add: branchLayout_def nodeAt_def linkAt_def updLink_def Let_def)

lemma branch_offsets: "computeLinkOffsets [0, 1, 2, 3] (branchAt 20 67 365 121) = branchLayout"
  unfolding computeLinkOffsets_def Let_def branch_columns branch_sorted_links branch_source_offsets
  by (rule branch_target_offsets)

subsection \<open>The whole run\<close>

lemma branch_dampings: "map (damping twoIterations) [0 ..< 2] = [1, 1 / 2]"
  by (simp add: damping_def twoIterations_def DEFAULT_CONFIG_def upt_conv_Cons)

lemma branch_iterations:
  "iterateWith twoIterations [1, 1 / 2] ([[0], [1], [2, 3]], branchAt 20 20 264 20)
     = Inr ([[0], [1], [3, 2]], branchAt 20 67 365 121)"
  by (simp only: iterateWith.simps branch_iteration0 branch_iteration1 sum.case)

lemma branch_loop:
  "relaxLoop twoIterations 0 ([[0], [1], [2, 3]], branchAt 20 20 264 20)
     = Inr ([[0], [1], [3, 2]], branchAt 20 67 365 121)"
proof -
  have "iterations twoIterations = real 2" by (simp add: twoIterations_def)
  from relaxLoop_from[OF this, of 0] show ?thesis
    by (simp only: branch_dampings branch_iterations le0)
qed

lemma branch_relaxed:
  "relaxNodePositions twoIterations [0, 1, 2, 3] (branchAt 20 20 264 20) = Inr (branchAt 20 67 365 121)"
  unfolding relaxNodePositions_def branch_columns
  by (simp only: branch_loop sum.case prod.case)

lemma branch_compute: "compute twoIterations branchGraph branchStore = Inr (branchGraph, branchLayout)"
proof -
  have ns: "graph_nodes branchGraph = [0, 1, 2, 3]" by (simp add: branchGraph_def)
  have ne: "[0, 1, 2, 3::nat] \<noteq> []" by simp
  show ?thesis
    unfolding compute_stages ns
    by (simp only: ne if_False branch_placed branch_relaxed sum.case branch_offsets)
qed

section \<open>Relaxation: what an iteration does with its damping\<close>

lemma moveNode_y:
  assumes "r < length (nodeStore s)"
  shows "node_y (nodeAt (moveNode dir d r s) r)
       = node_y (nodeAt s r)
         + (if linksOf dir (nodeAt s r) = [] then 0
            else (weightedCenter s r dir - nodeCenter s r) * d)"
  using assms by (simp add: moveNode_def Let_def nodeAt_updNode)

lemma moveNode_other: "q \<noteq> r \<Longrightarrow> nodeAt (moveNode dir d r s) q = nodeAt s q"
  by (simp add: moveNode_def Let_def nodeAt_updNode)

lemma moveNode_links:
  "linksOf dir' (nodeAt (moveNode dir d r s) q) = linksOf dir' (nodeAt s q)"
  "node_height (nodeAt (moveNode dir d r s) q) = node_height (nodeAt s q)"
  "linkAt (moveNode dir d r s) l = linkAt s l"
  "length (nodeStore (moveNode dir d r s)) = length (nodeStore s)"
  by (simp_all add: moveNode_def Let_def nodeAt_updNode linksOf_def)

lemma weightedCenter_cong:
  assumes lk: "linksOf dir (nodeAt s' r) = linksOf dir (nodeAt s r)"
    and la: "\<And>l. linkAt s' l = linkAt s l"
    and oc: "\<And>l. l \<in> set (linksOf dir (nodeAt s r)) \<Longrightarrow>
               nodeCenter s' (otherEnd dir (linkAt s l)) = nodeCenter s (otherEnd dir (linkAt s l))"
    and rc: "nodeCenter s' r = nodeCenter s r"
  shows "weightedCenter s' r dir = weightedCenter s r dir"
proof -
  have "fold (\<lambda>l (sumWeightedY, sumWeight).
                   let center = nodeCenter s' (otherEnd dir (linkAt s' l))
                   in (sumWeightedY + center * link_value (linkAt s' l),
                       sumWeight + link_value (linkAt s' l)))
             (linksOf dir (nodeAt s r)) acc
      = fold (\<lambda>l (sumWeightedY, sumWeight).
                   let center = nodeCenter s (otherEnd dir (linkAt s l))
                   in (sumWeightedY + center * link_value (linkAt s l),
                       sumWeight + link_value (linkAt s l)))
             (linksOf dir (nodeAt s r)) acc" for acc
    by (rule fold_cong) (simp_all add: la oc)
  note h = this[of "(0, 0)"]
  show ?thesis unfolding weightedCenter_def lk rc h ..
qed

lemma fold_moveNode_y:
  assumes "distinct col" and "\<forall>r\<in>set col. r < length (nodeStore s)"
    and "\<forall>r\<in>set col. \<forall>l\<in>set (linksOf dir (nodeAt s r)). otherEnd dir (linkAt s l) \<notin> set col"
    and "r \<in> set col"
  shows "node_y (nodeAt (fold (moveNode dir d) col s) r)
       = node_y (nodeAt s r)
         + (if linksOf dir (nodeAt s r) = [] then 0
            else (weightedCenter s r dir - nodeCenter s r) * d)"
  using assms
proof (induction col arbitrary: s)
  case Nil
  then show ?case by simp
next
  case (Cons a col)
  let ?s1 = "moveNode dir d a s"
  show ?case
  proof (cases "r = a")
    case True
    from Cons.prems(1) have "a \<notin> set col" by simp
    then have "nodeAt (fold (moveNode dir d) col ?s1) a = nodeAt ?s1 a"
      by (rule fold_moveNode_other)
    moreover from Cons.prems(2) have "a < length (nodeStore s)" by simp
    ultimately show ?thesis using True by (simp add: moveNode_y)
  next
    case False
    with Cons.prems(4) have rin: "r \<in> set col" by simp
    have d: "distinct col" using Cons.prems(1) by simp
    have rng: "\<forall>q\<in>set col. q < length (nodeStore ?s1)"
      using Cons.prems(2) by (simp add: moveNode_links)
    have out: "\<forall>q\<in>set col. \<forall>l\<in>set (linksOf dir (nodeAt ?s1 q)). otherEnd dir (linkAt ?s1 l) \<notin> set col"
      using Cons.prems(3) by (simp add: moveNode_links)
    have nr: "nodeAt ?s1 r = nodeAt s r" using False by (rule moveNode_other)
    have oc: "nodeCenter ?s1 (otherEnd dir (linkAt s l)) = nodeCenter s (otherEnd dir (linkAt s l))"
      if "l \<in> set (linksOf dir (nodeAt s r))" for l
    proof -
      from Cons.prems(3) rin that have "otherEnd dir (linkAt s l) \<noteq> a" by auto
      then show ?thesis by (simp add: nodeCenter_def moveNode_other)
    qed
    have rc: "nodeCenter ?s1 r = nodeCenter s r" by (simp add: nodeCenter_def nr)
    have wc: "weightedCenter ?s1 r dir = weightedCenter s r dir"
      by (rule weightedCenter_cong) (simp_all add: moveNode_links oc rc)
    have "node_y (nodeAt (fold (moveNode dir d) col ?s1) r)
        = node_y (nodeAt ?s1 r)
          + (if linksOf dir (nodeAt ?s1 r) = [] then 0
             else (weightedCenter ?s1 r dir - nodeCenter ?s1 r) * d)"
      by (rule Cons.IH[OF d rng out rin])
    then show ?thesis by (simp add: wc nr nodeCenter_def)
  qed
qed

lemma relaxPass_column:
  "relaxPass cfg dir d (c # cs) (cols, s)
     = (case resolveCollisions cfg (cols ! c) (fold (moveNode dir d) (cols ! c) s) of
          Inl e \<Rightarrow> Inl e
        | Inr (col, s') \<Rightarrow> relaxPass cfg dir d cs (cols[c := col], s'))"
  by (simp add: relaxColumn_def Let_def split: sum.splits)

text \<open>
  C6, as the code has it. With \<open>n\<close> configured iterations the loop runs exactly \<open>n\<close>
  iterations, iteration \<open>i\<close> (from 0) with the damping \<open>1 - i / n\<close>. An iteration with
  damping \<open>d\<close> is a forward pass over the columns 1, 2, \<dots> followed by a backward pass
  over the columns from the last but one down to 0, both with \<open>d\<close>. A pass goes through
  its columns in order; in a column it moves the nodes one after the other and then
  resolves the collisions of the column. Moving a node that has links on the side the
  pass looks at adds (weightedCenter - nodeCenter) * \<open>d\<close> to its y, with the two centres
  read when the node is moved, and changes nothing else in the store; a node without
  such links stays. When no link on that side joins two nodes of the column, every
  node of the column has, before the collisions are resolved, moved by
  (weightedCenter - nodeCenter) * \<open>d\<close> with the centres as they were when the column was
  entered. The damping of the last iteration that runs is \<open>1 / n\<close>, which is positive: the
  neighbour influence has not faded to 0 there.
\<close>

theorem relaxLoop_iterations:
  assumes "iterations cfg = real n"
  shows "relaxLoop cfg 0 st = iterateWith cfg (map (\<lambda>i. 1 - real i / real n) [0 ..< n]) st
       \<and> relaxIteration cfg d st =
           (case relaxPass cfg DirTarget d [1 ..< length (fst st)] st of
              Inl e \<Rightarrow> Inl e
            | Inr st1 \<Rightarrow> relaxPass cfg DirSource d (rev [0 ..< length (fst st1) - 1]) st1)
       \<and> relaxPass cfg dir d [] (cols, s) = Inr (cols, s)
       \<and> relaxPass cfg dir d (c # cs) (cols, s) =
           (case resolveCollisions cfg (cols ! c) (fold (moveNode dir d) (cols ! c) s) of
              Inl e \<Rightarrow> Inl e
            | Inr (col, s') \<Rightarrow> relaxPass cfg dir d cs (cols[c := col], s'))
       \<and> (r < length (nodeStore s) \<longrightarrow>
            node_y (nodeAt (moveNode dir d r s) r)
              = node_y (nodeAt s r)
                + (if linksOf dir (nodeAt s r) = [] then 0
                   else (weightedCenter s r dir - nodeCenter s r) * d))
       \<and> dropY (moveNode dir d r s) = dropY s
       \<and> (\<forall>q. q \<noteq> r \<longrightarrow> nodeAt (moveNode dir d r s) q = nodeAt s q)
       \<and> (distinct (cols ! c) \<and> (\<forall>q\<in>set (cols ! c). q < length (nodeStore s))
            \<and> (\<forall>q\<in>set (cols ! c). \<forall>l\<in>set (linksOf dir (nodeAt s q)).
                  otherEnd dir (linkAt s l) \<notin> set (cols ! c))
          \<longrightarrow> (\<forall>q\<in>set (cols ! c).
                 node_y (nodeAt (fold (moveNode dir d) (cols ! c) s) q)
                   = node_y (nodeAt s q)
                     + (if linksOf dir (nodeAt s q) = [] then 0
                        else (weightedCenter s q dir - nodeCenter s q) * d)))
       \<and> (0 < n \<longrightarrow> damping cfg (n - 1) = 1 / real n \<and> 0 < damping cfg (n - 1))"
proof -
  have "relaxLoop cfg 0 st = iterateWith cfg (map (damping cfg) [0 ..< n]) st"
    by (rule relaxLoop_from[OF assms]) simp
  also have "map (damping cfg) [0 ..< n] = map (\<lambda>i. 1 - real i / real n) [0 ..< n]"
    using assms by (simp add: damping_def)
  finally have run: "relaxLoop cfg 0 st
      = iterateWith cfg (map (\<lambda>i. 1 - real i / real n) [0 ..< n]) st" .
  have it: "relaxIteration cfg d st =
           (case relaxPass cfg DirTarget d [1 ..< length (fst st)] st of
              Inl e \<Rightarrow> Inl e
            | Inr st1 \<Rightarrow> relaxPass cfg DirSource d (rev [0 ..< length (fst st1) - 1]) st1)"
    by (simp add: relaxIteration_def)
  have p0: "relaxPass cfg dir d [] (cols, s) = Inr (cols, s)" by simp
  note p1 = relaxPass_column[of cfg dir d c cs cols s]
  have mv: "r < length (nodeStore s) \<longrightarrow>
            node_y (nodeAt (moveNode dir d r s) r)
              = node_y (nodeAt s r)
                + (if linksOf dir (nodeAt s r) = [] then 0
                   else (weightedCenter s r dir - nodeCenter s r) * d)"
    using moveNode_y[of r s dir d] by blast
  have fr: "dropY (moveNode dir d r s) = dropY s" by (rule dropY_moveNode)
  have ot: "\<forall>q. q \<noteq> r \<longrightarrow> nodeAt (moveNode dir d r s) q = nodeAt s q"
    using moveNode_other by blast
  have col: "distinct (cols ! c) \<and> (\<forall>q\<in>set (cols ! c). q < length (nodeStore s))
            \<and> (\<forall>q\<in>set (cols ! c). \<forall>l\<in>set (linksOf dir (nodeAt s q)).
                  otherEnd dir (linkAt s l) \<notin> set (cols ! c))
          \<longrightarrow> (\<forall>q\<in>set (cols ! c).
                 node_y (nodeAt (fold (moveNode dir d) (cols ! c) s) q)
                   = node_y (nodeAt s q)
                     + (if linksOf dir (nodeAt s q) = [] then 0
                        else (weightedCenter s q dir - nodeCenter s q) * d))"
    using fold_moveNode_y[of "cols ! c" s dir _ d] by blast
  have last: "0 < n \<longrightarrow> damping cfg (n - 1) = 1 / real n \<and> 0 < damping cfg (n - 1)"
    using assms by (simp add: damping_def field_simps of_nat_diff)
  show ?thesis
    by (intro conjI) (rule run it p0 p1 mv fr ot col last)+
qed

theorem relaxLoop_iterations_witness:
  "iterations twoIterations = real 2
   \<and> relaxLoop twoIterations 0 ([[0], [1], [2, 3]], branchAt 20 20 264 20)
       = iterateWith twoIterations [1, 1 / 2] ([[0], [1], [2, 3]], branchAt 20 20 264 20)
   \<and> relaxLoop twoIterations 0 ([[0], [1], [2, 3]], branchAt 20 20 264 20)
       = Inr ([[0], [1], [3, 2]], branchAt 20 67 365 121)
   \<and> relaxIteration twoIterations (1 / 2) ([[0], [1], [3, 2]], branchAt 20 (127 / 2) 365 121)
       = relaxPass twoIterations DirSource (1 / 2) [1, 0] ([[0], [1], [3, 2]], branchAt 20 (141 / 2) 365 121)
   \<and> (3::nat) < length (nodeStore (branchAt 20 (141 / 2) 365 121))
   \<and> linksOf DirTarget (nodeAt (branchAt 20 (141 / 2) 365 121) 3) = [2]
   \<and> weightedCenter (branchAt 20 (141 / 2) 365 121) 3 DirTarget = 243
   \<and> nodeCenter (branchAt 20 (141 / 2) 365 121) 3 = 236
   \<and> node_y (nodeAt (moveNode DirTarget (1 / 2) 3 (branchAt 20 (141 / 2) 365 121)) 3)
       = 121 + (243 - 236) * (1 / 2)
   \<and> node_y (nodeAt (moveNode DirTarget (1 / 2) 3 (branchAt 20 (141 / 2) 365 121)) 2) = 365
   \<and> weightedCenter (branchAt 20 (141 / 2) 365 121) 2 DirTarget = 250
   \<and> nodeCenter (branchAt 20 (141 / 2) 365 121) 2 = 845 / 2
   \<and> node_y (nodeAt (fold (moveNode DirTarget (1 / 2)) [3, 2] (branchAt 20 (141 / 2) 365 121)) 2)
       = 365 + (250 - 845 / 2) * (1 / 2)
   \<and> node_y (nodeAt (fold (moveNode DirTarget (1 / 2)) [3, 2] (branchAt 20 (141 / 2) 365 121)) 3)
       = 121 + (243 - 236) * (1 / 2)
   \<and> damping twoIterations (2 - 1) = 1 / real 2 \<and> 0 < damping twoIterations (2 - 1)"
proof -
  let ?st0 = "([[0], [1], [2, 3]], branchAt 20 20 264 20)"
  let ?s = "branchAt 20 (141 / 2) 365 121"
  have n: "iterations twoIterations = real 2" by (simp add: twoIterations_def)
  have ds: "map (\<lambda>i. 1 - real i / real 2) [0 ..< 2] = [1, 1 / 2]" by (simp add: upt_conv_Cons)
  have rng: "(3::nat) < length (nodeStore ?s)" by (simp add: branchAt_def)
  have l3: "linksOf DirTarget (nodeAt ?s 3) = [2]"
    and l2: "linksOf DirTarget (nodeAt ?s 2) = [1]"
    by (simp_all add: linksOf_def branchAt_def nodeAt_def)
  have w3: "weightedCenter ?s 3 DirTarget = 243" and c3: "nodeCenter ?s 3 = 236"
    and w2: "weightedCenter ?s 2 DirTarget = 250" and c2: "nodeCenter ?s 2 = 845 / 2"
    by (simp_all add: weightedCenter_def nodeCenter_def linksOf_def otherEnd_def branchAt_def
        nodeAt_def linkAt_def Let_def)
  have y3: "node_y (nodeAt ?s 3) = 121" and y2: "node_y (nodeAt ?s 2) = 365"
    by (simp_all add: branchAt_def nodeAt_def)
  have col: "[[0], [1], [3, 2]] ! 2 = [3, 2::nat]" by simp
  have h: "distinct [3, 2::nat] \<and> (\<forall>q\<in>set [3, 2]. q < length (nodeStore ?s))
         \<and> (\<forall>q\<in>set [3, 2]. \<forall>l\<in>set (linksOf DirTarget (nodeAt ?s q)).
               otherEnd DirTarget (linkAt ?s l) \<notin> set [3, 2])"
    by (simp add: l3 l2) (simp add: otherEnd_def branchAt_def linkAt_def)
  note t = relaxLoop_iterations[where cfg = twoIterations and n = 2 and st = ?st0 and d = "1 / 2"
      and dir = DirTarget and cols = "[[0], [1], [3, 2]]" and s = ?s and c = 2 and cs = "[]"
      and r = 3, OF n, unfolded ds col]
  from t have run: "relaxLoop twoIterations 0 ?st0 = iterateWith twoIterations [1, 1 / 2] ?st0"
    by (rule conjunct1)
  from t rng have mv: "node_y (nodeAt (moveNode DirTarget (1 / 2) 3 ?s) 3)
      = node_y (nodeAt ?s 3)
        + (if linksOf DirTarget (nodeAt ?s 3) = [] then 0
           else (weightedCenter ?s 3 DirTarget - nodeCenter ?s 3) * (1 / 2))"
    by blast
  from t have ot: "nodeAt (moveNode DirTarget (1 / 2) 3 ?s) 2 = nodeAt ?s 2"
    by simp
  from t h have cl: "\<forall>q\<in>set [3, 2].
      node_y (nodeAt (fold (moveNode DirTarget (1 / 2)) [3, 2] ?s) q)
        = node_y (nodeAt ?s q)
          + (if linksOf DirTarget (nodeAt ?s q) = [] then 0
             else (weightedCenter ?s q DirTarget - nodeCenter ?s q) * (1 / 2))"
    by blast
  from t have last: "damping twoIterations (2 - 1) = 1 / real 2 \<and> 0 < damping twoIterations (2 - 1)"
    by simp
  have it: "relaxIteration twoIterations (1 / 2) ([[0], [1], [3, 2]], branchAt 20 (127 / 2) 365 121)
       = relaxPass twoIterations DirSource (1 / 2) [1, 0] ([[0], [1], [3, 2]], ?s)"
  proof -
    have f: "[1 ..< length (fst ([[0::nat], [1], [3, 2]], branchAt 20 (127 / 2) 365 121))] = [1, 2]"
      by (simp add: upt_conv_Cons)
    have b: "rev [0 ..< length (fst ([[0::nat], [1], [3, 2]], ?s)) - 1] = [1, 0]"
      by (simp add: upt_conv_Cons)
    from relaxLoop_iterations[where cfg = twoIterations and n = 2 and d = "1 / 2"
        and st = "([[0], [1], [3, 2]], branchAt 20 (127 / 2) 365 121)", OF n]
    have "relaxIteration twoIterations (1 / 2) ([[0], [1], [3, 2]], branchAt 20 (127 / 2) 365 121)
        = (case relaxPass twoIterations DirTarget (1 / 2)
                  [1 ..< length (fst ([[0::nat], [1], [3, 2]], branchAt 20 (127 / 2) 365 121))]
                  ([[0], [1], [3, 2]], branchAt 20 (127 / 2) 365 121) of
             Inl e \<Rightarrow> Inl e
           | Inr st1 \<Rightarrow> relaxPass twoIterations DirSource (1 / 2) (rev [0 ..< length (fst st1) - 1]) st1)"
      by blast
    then show ?thesis
      unfolding f
      by (simp only: relaxPass.simps branch_forward1_column1 branch_forward1_column2 sum.case b)
  qed
  show ?thesis
    using n run branch_loop it rng l3 w3 c3 mv ot cl last
    by (simp add: l3 l2 w3 c3 w2 c2 y3 y2)
qed

text \<open>
  C6 as the spec states it fails for the default configuration: iteration 31 is the last
  one that runs (31 < 32, and 32 < 32 is false) and its damping is 1/32, not 0.
\<close>

theorem relaxLoop_damping_counterexample:
  "real 31 < iterations DEFAULT_CONFIG \<and> \<not> real (Suc 31) < iterations DEFAULT_CONFIG
   \<and> damping DEFAULT_CONFIG 31 = 1 / 32 \<and> damping DEFAULT_CONFIG 31 \<noteq> 0"
  by (simp add: DEFAULT_CONFIG_def damping_def)

subsection \<open>The traversal keeps a node with outgoing links in every column it passes\<close>

lemma nodeAt_setDepth:
  "nodeAt (setDepth r d s) q
     = (if q = r \<and> r < length (nodeStore s) then (nodeAt s r)\<lparr>node_depth := d\<rparr> else nodeAt s q)"
  by (simp add: setDepth_def nodeAt_updNode)

lemma linkAt_setDepth [simp]: "linkAt (setDepth r d s) l = linkAt s l"
  by (simp add: setDepth_def)

lemma length_setDepth [simp]: "length (nodeStore (setDepth r d s)) = length (nodeStore s)"
  by (simp add: setDepth_def)

lemma closedGraph_setDepth: "closedGraph ns (setDepth r d s) = closedGraph ns s"
proof -
  have i: "node_id (nodeAt (setDepth r d s) q) = node_id (nodeAt s q)" for q
    by (simp add: nodeAt_setDepth)
  have l: "sourceLinks (nodeAt (setDepth r d s) q) = sourceLinks (nodeAt s q)" for q
    by (simp add: nodeAt_setDepth)
  show ?thesis unfolding closedGraph_def i l by simp
qed

lemma pusher_visit:
  assumes "pusher ns s V k" and "node_id (nodeAt s r) \<notin> V"
  shows "pusher ns (setDepth r d s) (insert (node_id (nodeAt s r)) V) k"
proof -
  from assms(1) obtain p where p: "p \<in> set ns" "node_id (nodeAt s p) \<in> V"
    "node_depth (nodeAt s p) = k" "sourceLinks (nodeAt s p) \<noteq> []"
    unfolding pusher_def by blast
  with assms(2) have "p \<noteq> r" by auto
  then have e: "nodeAt (setDepth r d s) p = nodeAt s p" by (simp add: nodeAt_setDepth)
  have "p \<in> set ns \<and> node_id (nodeAt (setDepth r d s) p) \<in> insert (node_id (nodeAt s r)) V
      \<and> node_depth (nodeAt (setDepth r d s) p) = k \<and> sourceLinks (nodeAt (setDepth r d s) p) \<noteq> []"
    unfolding e using p by simp
  then show ?thesis unfolding pusher_def by blast
qed

lemma layered_visit:
  assumes cg: "closedGraph ns s" and r: "r \<in> set ns" and nv: "node_id (nodeAt s r) \<notin> V"
    and lay: "layered ns s V" and below: "d = 0 \<or> pusher ns s V (d - 1)"
  shows "layered ns (setDepth r d s) (insert (node_id (nodeAt s r)) V)"
  unfolding layered_def
proof (intro ballI impI allI)
  fix q k
  let ?s = "setDepth r d s"
  assume q: "q \<in> set ns" and v: "node_id (nodeAt ?s q) \<in> insert (node_id (nodeAt s r)) V"
    and dk: "node_depth (nodeAt ?s q) = Suc k"
  from cg r have rr: "r < length (nodeStore s)" by (simp add: closedGraph_def)
  from cg have inj: "inj_on (\<lambda>r. node_id (nodeAt s r)) (set ns)" by (simp add: closedGraph_def)
  have idq: "node_id (nodeAt ?s q) = node_id (nodeAt s q)" by (simp add: nodeAt_setDepth)
  show "pusher ns ?s (insert (node_id (nodeAt s r)) V) k"
  proof (cases "q = r")
    case True
    with dk rr have "d = Suc k" by (simp add: nodeAt_setDepth)
    with below have "pusher ns s V k" by simp
    then show ?thesis using nv by (rule pusher_visit)
  next
    case False
    with inj q r have "node_id (nodeAt s q) \<noteq> node_id (nodeAt s r)" by (auto dest: inj_onD)
    with v idq have vq: "node_id (nodeAt s q) \<in> V" by simp
    from False dk have "node_depth (nodeAt s q) = Suc k" by (simp add: nodeAt_setDepth)
    with lay q vq have "pusher ns s V k" unfolding layered_def by blast
    then show ?thesis using nv by (rule pusher_visit)
  qed
qed

lemma pushTargets_subset:
  assumes "closedGraph ns s" and "r \<in> set ns"
  shows "set (pushTargets s V (sourceLinks (nodeAt s r))) \<subseteq> set ns"
  using assms unfolding closedGraph_def pushTargets_def by auto

lemma visitLayer_layered:
  assumes "closedGraph ns s" and "set cur \<subseteq> set ns" and "set nxt \<subseteq> set ns"
    and "layered ns s V"
    and "cur = [] \<or> d = 0 \<or> pusher ns s V (d - 1)"
    and "nxt = [] \<or> pusher ns s V d"
    and "visitLayer d cur (s, V, nxt) = (s', V', nxt')"
  shows "closedGraph ns s' \<and> set nxt' \<subseteq> set ns \<and> layered ns s' V' \<and> (nxt' = [] \<or> pusher ns s' V' d)"
  using assms
proof (induction cur arbitrary: s V nxt)
  case Nil
  then show ?case by simp
next
  case (Cons r rs)
  from Cons.prems(2) have r: "r \<in> set ns" and rs: "set rs \<subseteq> set ns" by auto
  from Cons.prems(5) have below: "d = 0 \<or> pusher ns s V (d - 1)" by simp
  show ?case
  proof (cases "node_id (nodeAt s r) \<in> V")
    case True
    with Cons.prems(7) have vl: "visitLayer d rs (s, V, nxt) = (s', V', nxt')" by simp
    have b: "rs = [] \<or> d = 0 \<or> pusher ns s V (d - 1)" using below by blast
    show ?thesis
      by (rule Cons.IH[OF Cons.prems(1) rs Cons.prems(3,4) b Cons.prems(6) vl])
  next
    case False
    define V1 where "V1 = insert (node_id (nodeAt s r)) V"
    define s1 where "s1 = setDepth r d s"
    define nxt1 where "nxt1 = nxt @ pushTargets s1 V1 (sourceLinks (nodeAt s1 r))"
    from Cons.prems(7) False have vl: "visitLayer d rs (s1, V1, nxt1) = (s', V', nxt')"
      by (simp add: Let_def V1_def s1_def nxt1_def)
    have cg1: "closedGraph ns s1" using Cons.prems(1) by (simp add: s1_def closedGraph_setDepth)
    have n1: "set nxt1 \<subseteq> set ns"
      using Cons.prems(3) pushTargets_subset[OF cg1 r, of V1] by (simp add: nxt1_def)
    have l1: "layered ns s1 V1"
      unfolding s1_def V1_def by (rule layered_visit[OF Cons.prems(1) r False Cons.prems(4) below])
    have b1: "rs = [] \<or> d = 0 \<or> pusher ns s1 V1 (d - 1)"
      using below pusher_visit[OF _ False, of ns "d - 1" d] by (auto simp: s1_def V1_def)
    have rr: "r < length (nodeStore s)" using Cons.prems(1) r by (simp add: closedGraph_def)
    have p1: "nxt1 = [] \<or> pusher ns s1 V1 d"
    proof (cases "nxt = []")
      case False
      with Cons.prems(6) have "pusher ns s V d" by simp
      then show ?thesis using pusher_visit[OF _ \<open>node_id (nodeAt s r) \<notin> V\<close>, of ns d d]
        by (simp add: s1_def V1_def)
    next
      case True
      show ?thesis
      proof (cases "sourceLinks (nodeAt s1 r) = []")
        case True
        with \<open>nxt = []\<close> show ?thesis by (simp add: nxt1_def pushTargets_def)
      next
        case False
        have "node_id (nodeAt s1 r) \<in> V1" by (simp add: s1_def V1_def nodeAt_setDepth)
        moreover have "node_depth (nodeAt s1 r) = d" using rr by (simp add: s1_def nodeAt_setDepth)
        ultimately have "pusher ns s1 V1 d" using r False unfolding pusher_def by blast
        then show ?thesis ..
      qed
    qed
    show ?thesis by (rule Cons.IH[OF cg1 rs n1 l1 b1 p1 vl])
  qed
qed

lemma bfs_layered:
  assumes "closedGraph ns s" and "set cur \<subseteq> set ns" and "layered ns s V"
    and "cur = [] \<or> d = 0 \<or> pusher ns s V (d - 1)"
    and "bfs s V cur d = (s', V')"
  shows "closedGraph ns s' \<and> layered ns s' V'"
  using assms
proof (induction s V cur d rule: bfs.induct)
  case (1 s V cur d)
  show ?case
  proof (cases "cur = []")
    case True
    with "1.prems" show ?thesis by (simp add: bfs.simps)
  next
    case False
    obtain s1 V1 nxt where vl: "visitLayer d cur (s, V, []) = (s1, V1, nxt)"
      by (metis prod_cases3)
    with False "1.prems"(5) have b: "bfs s1 V1 nxt (Suc d) = (s', V')"
      by (subst (asm) bfs.simps) simp
    have "closedGraph ns s1 \<and> set nxt \<subseteq> set ns \<and> layered ns s1 V1 \<and> (nxt = [] \<or> pusher ns s1 V1 d)"
      by (rule visitLayer_layered[OF "1.prems"(1,2) _ "1.prems"(3,4) _ vl]) simp_all
    then have cg1: "closedGraph ns s1" and n1: "set nxt \<subseteq> set ns" and l1: "layered ns s1 V1"
      and p1: "nxt = [] \<or> Suc d = 0 \<or> pusher ns s1 V1 (Suc d - 1)" by simp_all
    show ?thesis
      by (rule "1.IH"[OF False vl[symmetric] refl cg1 n1 l1 p1 b])
  qed
qed

subsection \<open>After the traversal: unvisited nodes and sinks\<close>

lemma depth_markUnvisited:
  assumes "r < length (nodeStore s)"
  shows "node_depth (nodeAt (markUnvisited V ns s) r)
       = (if r \<in> set ns \<and> node_id (nodeAt s r) \<notin> V then 0 else node_depth (nodeAt s r))
       \<and> sourceLinks (nodeAt (markUnvisited V ns s) r) = sourceLinks (nodeAt s r)
       \<and> node_id (nodeAt (markUnvisited V ns s) r) = node_id (nodeAt s r)"
  using assms unfolding markUnvisited_def
proof (induction ns arbitrary: s)
  case Nil
  then show ?case by simp
next
  case (Cons a ns)
  let ?s1 = "if node_id (nodeAt s a) \<notin> V then setDepth a 0 s else s"
  have len: "r < length (nodeStore ?s1)" using Cons.prems by simp
  have id1: "node_id (nodeAt ?s1 q) = node_id (nodeAt s q)" for q
    by (simp add: nodeAt_setDepth)
  have sl1: "sourceLinks (nodeAt ?s1 q) = sourceLinks (nodeAt s q)" for q
    by (simp add: nodeAt_setDepth)
  have d1: "node_depth (nodeAt ?s1 r)
      = (if r = a \<and> node_id (nodeAt s r) \<notin> V then 0 else node_depth (nodeAt s r))"
    using Cons.prems by (auto simp: nodeAt_setDepth)
  from Cons.IH[OF len] show ?case
    by (simp only: fold_simps id1 sl1 d1) auto
qed

lemma depth_justifySinks_fold:
  assumes "r < length (nodeStore s)"
  shows "node_depth (nodeAt (fold (\<lambda>r st. if length (sourceLinks (nodeAt st r)) = 0 \<and> node_depth (nodeAt st r) < M
                       then setDepth r M st else st) ns s) r)
       = (if r \<in> set ns \<and> sourceLinks (nodeAt s r) = [] \<and> node_depth (nodeAt s r) < M then M
          else node_depth (nodeAt s r))"
  using assms
proof (induction ns arbitrary: s)
  case Nil
  then show ?case by simp
next
  case (Cons a ns)
  let ?s1 = "if length (sourceLinks (nodeAt s a)) = 0 \<and> node_depth (nodeAt s a) < M
             then setDepth a M s else s"
  have len: "r < length (nodeStore ?s1)" using Cons.prems by simp
  have sl1: "sourceLinks (nodeAt ?s1 r) = sourceLinks (nodeAt s r)"
    by (simp add: nodeAt_setDepth)
  have d1: "node_depth (nodeAt ?s1 r)
      = (if r = a \<and> sourceLinks (nodeAt s r) = [] \<and> node_depth (nodeAt s r) < M then M
         else node_depth (nodeAt s r))"
    using Cons.prems by (auto simp: nodeAt_setDepth)
  from Cons.IH[OF len] show ?case
    by (simp only: fold_simps sl1 d1) auto
qed

lemma depth_justifySinks:
  assumes "r < length (nodeStore s)"
  shows "node_depth (nodeAt (justifySinks ns s) r)
       = (if r \<in> set ns \<and> sourceLinks (nodeAt s r) = [] \<and> node_depth (nodeAt s r) < maxDepthOf s ns
          then maxDepthOf s ns else node_depth (nodeAt s r))"
  unfolding justifySinks_def Let_def by (rule depth_justifySinks_fold[OF assms])

subsection \<open>No column is left empty\<close>

lemma length_markUnvisited: "length (nodeStore (markUnvisited V ns s)) = length (nodeStore s)"
proof -
  have "map node_id (nodeStore (markUnvisited V ns s)) = map node_id (nodeStore s)
      \<and> linkStore (markUnvisited V ns s) = linkStore s"
    unfolding markUnvisited_def by (rule frame_fold) (simp add: setDepth_frame)
  then show ?thesis by (metis length_map)
qed

lemma pushers_below:
  assumes step: "\<forall>r\<in>set ns. \<forall>k. node_depth (nodeAt s r) = Suc k \<longrightarrow>
            (\<exists>p\<in>set ns. node_depth (nodeAt s p) = k \<and> sourceLinks (nodeAt s p) \<noteq> [])"
    and "r \<in> set ns" and "k < node_depth (nodeAt s r)"
  shows "\<exists>p\<in>set ns. node_depth (nodeAt s p) = k \<and> sourceLinks (nodeAt s p) \<noteq> []"
  using assms(2,3)
proof (induction "node_depth (nodeAt s r) - k" arbitrary: r rule: less_induct)
  case less
  from less.prems(2) obtain j where j: "node_depth (nodeAt s r) = Suc j"
    by (cases "node_depth (nodeAt s r)") simp_all
  with step less.prems(1) obtain p where p: "p \<in> set ns" "node_depth (nodeAt s p) = j"
    "sourceLinks (nodeAt s p) \<noteq> []" by blast
  show ?case
  proof (cases "j = k")
    case True
    with p show ?thesis by blast
  next
    case False
    with j less.prems(2) have kj: "k < node_depth (nodeAt s p)" using p(2) by simp
    have "node_depth (nodeAt s p) - k < node_depth (nodeAt s r) - k"
      using j p(2) kj by simp
    from less.hyps[OF this p(1) kj] show ?thesis .
  qed
qed

lemma maxDepthOf_le:
  assumes "\<forall>r\<in>set ns. node_depth (nodeAt s r) \<le> M"
  shows "maxDepthOf s ns \<le> M"
  using maxDepthOf_attained[of s ns] assms by auto

lemma stepped_filled:
  assumes step: "\<forall>r\<in>set ns. \<forall>k. node_depth (nodeAt s r) = Suc k \<longrightarrow>
            (\<exists>p\<in>set ns. node_depth (nodeAt s p) = k \<and> sourceLinks (nodeAt s p) \<noteq> [])"
    and ne: "ns \<noteq> []"
  shows "columnsFilled ns s"
  unfolding columnsFilled_def
proof (intro allI impI)
  fix k assume k: "k \<le> maxDepthOf s ns"
  show "\<exists>r\<in>set ns. node_depth (nodeAt s r) = k"
  proof (cases "maxDepthOf s ns = 0")
    case True
    from ne obtain r where r: "r \<in> set ns" by (cases ns) auto
    with depth_le_maxDepthOf[OF r, of s] True k show ?thesis by auto
  next
    case False
    with maxDepthOf_attained[of s ns] obtain r where r: "r \<in> set ns"
      "node_depth (nodeAt s r) = maxDepthOf s ns" by blast
    show ?thesis
    proof (cases "k = maxDepthOf s ns")
      case True
      with r show ?thesis by blast
    next
      case False
      with k r(2) have "k < node_depth (nodeAt s r)" by simp
      from pushers_below[OF step r(1) this] show ?thesis by blast
    qed
  qed
qed

lemma stepped_justified:
  assumes step: "\<forall>r\<in>set ns. \<forall>k. node_depth (nodeAt s r) = Suc k \<longrightarrow>
            (\<exists>p\<in>set ns. node_depth (nodeAt s p) = k \<and> sourceLinks (nodeAt s p) \<noteq> [])"
    and ne: "ns \<noteq> []" and rng: "\<forall>r\<in>set ns. r < length (nodeStore s)"
  shows "columnsFilled ns (justifySinks ns s)"
proof -
  define M where "M = maxDepthOf s ns"
  let ?s' = "justifySinks ns s"
  have dj: "node_depth (nodeAt ?s' r)
      = (if sourceLinks (nodeAt s r) = [] \<and> node_depth (nodeAt s r) < M then M
         else node_depth (nodeAt s r))" if "r \<in> set ns" for r
    using depth_justifySinks[of r s ns] rng that by (simp add: M_def)
  have le: "node_depth (nodeAt s r) \<le> M" if "r \<in> set ns" for r
    unfolding M_def by (rule depth_le_maxDepthOf[OF that])
  have le': "\<forall>r\<in>set ns. node_depth (nodeAt ?s' r) \<le> M"
    using dj le by auto
  then have mle: "maxDepthOf ?s' ns \<le> M" by (rule maxDepthOf_le)
  show ?thesis
    unfolding columnsFilled_def
  proof (intro allI impI)
    fix k assume "k \<le> maxDepthOf ?s' ns"
    with mle have k: "k \<le> M" by simp
    show "\<exists>r\<in>set ns. node_depth (nodeAt ?s' r) = k"
    proof (cases "M = 0")
      case True
      from ne obtain r where r: "r \<in> set ns" by (cases ns) auto
      with le' True k show ?thesis by auto
    next
      case False
      with maxDepthOf_attained[of s ns] obtain r where r: "r \<in> set ns"
        "node_depth (nodeAt s r) = M" unfolding M_def by blast
      show ?thesis
      proof (cases "k = M")
        case True
        from dj[OF r(1)] r(2) have "node_depth (nodeAt ?s' r) = M" by simp
        with r(1) True show ?thesis by blast
      next
        case False
        with k r(2) have "k < node_depth (nodeAt s r)" by simp
        from pushers_below[OF step r(1) this] obtain p where p: "p \<in> set ns"
          "node_depth (nodeAt s p) = k" "sourceLinks (nodeAt s p) \<noteq> []" by blast
        from dj[OF p(1)] p(2,3) have "node_depth (nodeAt ?s' p) = k" by simp
        with p(1) show ?thesis by blast
      qed
    qed
  qed
qed

lemma computeDepths_filled:
  assumes cg: "closedGraph ns s" and ne: "ns \<noteq> []"
  shows "columnsFilled ns (computeDepths cfg ns s)"
proof (cases "filter (\<lambda>r. length (targetLinks (nodeAt s r)) = 0) ns = []")
  case True
  then have cd: "computeDepths cfg ns s = fold (\<lambda>r. setDepth r 0) ns s"
    by (simp add: computeDepths_def)
  have "\<forall>r\<in>set ns. \<forall>k. node_depth (nodeAt (computeDepths cfg ns s) r) = Suc k \<longrightarrow>
      (\<exists>p\<in>set ns. node_depth (nodeAt (computeDepths cfg ns s) p) = k
                    \<and> sourceLinks (nodeAt (computeDepths cfg ns s) p) \<noteq> [])"
    unfolding cd by (simp add: depth_fold_setDepth0)
  then show ?thesis using ne by (rule stepped_filled)
next
  case False
  let ?src = "filter (\<lambda>r. length (targetLinks (nodeAt s r)) = 0) ns"
  obtain s1 V where b: "bfs s {} ?src 0 = (s1, V)" by (metis surj_pair)
  have lay0: "layered ns s {}" by (simp add: layered_def)
  have "closedGraph ns s1 \<and> layered ns s1 V"
    by (rule bfs_layered[OF cg _ lay0 _ b]) simp_all
  then have cg1: "closedGraph ns s1" and lay1: "layered ns s1 V" by simp_all
  let ?s2 = "markUnvisited V ns s1"
  have rng1: "\<forall>r\<in>set ns. r < length (nodeStore s1)" using cg1 by (simp add: closedGraph_def)
  then have rng2: "\<forall>r\<in>set ns. r < length (nodeStore ?s2)" by (simp add: length_markUnvisited)
  have d2: "node_depth (nodeAt ?s2 r) = (if node_id (nodeAt s1 r) \<notin> V then 0 else node_depth (nodeAt s1 r))"
    and l2: "sourceLinks (nodeAt ?s2 r) = sourceLinks (nodeAt s1 r)" if "r \<in> set ns" for r
    using depth_markUnvisited[of r s1 V ns] rng1 that by simp_all
  have step2: "\<forall>r\<in>set ns. \<forall>k. node_depth (nodeAt ?s2 r) = Suc k \<longrightarrow>
      (\<exists>p\<in>set ns. node_depth (nodeAt ?s2 p) = k \<and> sourceLinks (nodeAt ?s2 p) \<noteq> [])"
  proof (intro ballI allI impI)
    fix r k assume r: "r \<in> set ns" and dk: "node_depth (nodeAt ?s2 r) = Suc k"
    from dk d2[OF r] have v: "node_id (nodeAt s1 r) \<in> V" and d1: "node_depth (nodeAt s1 r) = Suc k"
      by (auto split: if_splits)
    with lay1 r have "pusher ns s1 V k" unfolding layered_def by blast
    then obtain p where p: "p \<in> set ns" "node_id (nodeAt s1 p) \<in> V" "node_depth (nodeAt s1 p) = k"
      "sourceLinks (nodeAt s1 p) \<noteq> []" unfolding pusher_def by blast
    from d2[OF p(1)] l2[OF p(1)] p have "node_depth (nodeAt ?s2 p) = k \<and> sourceLinks (nodeAt ?s2 p) \<noteq> []"
      by simp
    with p(1) show "\<exists>p\<in>set ns. node_depth (nodeAt ?s2 p) = k \<and> sourceLinks (nodeAt ?s2 p) \<noteq> []"
      by blast
  qed
  have cd: "computeDepths cfg ns s = (if nodeAlign cfg = Justify then justifySinks ns ?s2 else ?s2)"
    using False b by (simp add: computeDepths_def Let_def)
  show ?thesis
  proof (cases "nodeAlign cfg = Justify")
    case True
    with cd stepped_justified[OF step2 ne rng2] show ?thesis by simp
  next
    case False
    with cd stepped_filled[OF step2 ne] show ?thesis by simp
  qed
qed

lemma initialPlacement_filled:
  assumes "closedGraph ns s" and "ns \<noteq> []"
  shows "columnsFilled ns (initialPlacement cfg ns s)"
proof -
  have d: "node_depth (nodeAt (initialPlacement cfg ns s) r) = node_depth (nodeAt (computeDepths cfg ns s) r)" for r
    by (rule initialPlacement_depth)
  have m: "maxDepthOf (initialPlacement cfg ns s) ns = maxDepthOf (computeDepths cfg ns s) ns"
    by (rule maxDepthOf_cong) (rule d)
  from computeDepths_filled[OF assms, of cfg] show ?thesis
    unfolding columnsFilled_def m d .
qed

lemma compute_closed:
  assumes "closedGraph (graph_nodes g) s"
  shows "\<exists>s'. compute cfg g s = Inr (g, s')"
proof (cases "graph_nodes g = []")
  case True
  then show ?thesis by (simp add: compute_stages)
next
  case False
  from relaxNodePositions_Inr[OF initialPlacement_filled[OF assms False], of cfg]
  obtain s5 where "relaxNodePositions cfg (graph_nodes g) (initialPlacement cfg (graph_nodes g) s) = Inr s5"
    by blast
  with False show ?thesis by (simp add: compute_stages)
qed

text \<open>
  C7, as the code has it: \<open>compute\<close> returns, without an exception and for every
  configuration, on every graph whose nodes have different ids and whose nodes' outgoing
  links end at nodes of the graph; the store it returns holds the same nodes with
  their ids and the same links with their ends and values. Nothing is asked of the link
  values, of the incoming link arrays or of the shape of the graph: an empty graph, a
  single node, a cycle, disconnected components and links of value 0 are all covered.
  On a graph without nodes \<open>compute\<close> returns the graph and the store as they are.
\<close>

theorem compute_returns:
  assumes "closedGraph (graph_nodes g) s"
  shows "(\<exists>s'. compute cfg g s = Inr (g, s')
            \<and> map node_id (nodeStore s') = map node_id (nodeStore s)
            \<and> map linkKey (linkStore s') = map linkKey (linkStore s))
       \<and> (graph_nodes g = [] \<longrightarrow> compute cfg g s = Inr (g, s))"
proof -
  from compute_closed[OF assms, of cfg] obtain s' where c: "compute cfg g s = Inr (g, s')" by blast
  from compute_shape[OF c] c
  have "\<exists>s'. compute cfg g s = Inr (g, s')
            \<and> map node_id (nodeStore s') = map node_id (nodeStore s)
            \<and> map linkKey (linkStore s') = map linkKey (linkStore s)" by blast
  moreover have "graph_nodes g = [] \<longrightarrow> compute cfg g s = Inr (g, s)"
    by (simp add: compute_stages)
  ultimately show ?thesis by blast
qed

theorem compute_returns_witness:
  "closedGraph (graph_nodes branchGraph) branchStore
   \<and> compute twoIterations branchGraph branchStore = Inr (branchGraph, branchLayout)
   \<and> map node_id (nodeStore branchLayout) = [''A'', ''B'', ''C'', ''D'']
   \<and> graph_nodes \<lparr>graph_nodes = [], graph_links = []\<rparr> = []
   \<and> closedGraph (graph_nodes \<lparr>graph_nodes = [], graph_links = []\<rparr>) \<lparr>nodeStore = [], linkStore = []\<rparr>
   \<and> compute DEFAULT_CONFIG \<lparr>graph_nodes = [], graph_links = []\<rparr> \<lparr>nodeStore = [], linkStore = []\<rparr>
       = Inr (\<lparr>graph_nodes = [], graph_links = []\<rparr>, \<lparr>nodeStore = [], linkStore = []\<rparr>)"
proof -
  have cg: "closedGraph (graph_nodes branchGraph) branchStore"
    by (simp add: closedGraph_def branchGraph_def branchStore_def makeNode_def makeLink_def
        nodeAt_def linkAt_def)
  have ce: "closedGraph (graph_nodes \<lparr>graph_nodes = [], graph_links = []\<rparr>) \<lparr>nodeStore = [], linkStore = []\<rparr>"
    by (simp add: closedGraph_def)
  from compute_returns[OF cg, of twoIterations]
    compute_returns[OF ce, of DEFAULT_CONFIG] cg ce branch_compute
  show ?thesis by (simp add: branchLayout_def)
qed

text \<open>
  C7 as the spec states it fails on a malformed graph: the chain A \<rightarrow> B \<rightarrow> C given with
  the node list [A, C]. The traversal still reaches C through B at depth 2, column 1
  holds no node of the list, and \<open>resolveCollisions\<close> reads \<open>last.y\<close> of an empty column.
\<close>

theorem compute_throws_counterexample:
  "compute DEFAULT_CONFIG partialChainGraph chainStore = Inl TypeError"
  by code_simp

section \<open>A reference run: the merge graph with two iterations\<close>

subsection \<open>Depths\<close>








subsection \<open>Values, x and the initial y\<close>









subsection \<open>Iteration 0, with damping 1\<close>




subsection \<open>Iteration 1, with damping 1 / 2\<close>




subsection \<open>The whole run\<close>





subsection \<open>Link offsets\<close>






section \<open>A reference run: the cycle with a negative node padding\<close>

subsection \<open>Depths\<close>

lemma tight_sources:
  "filter (\<lambda>r. length (targetLinks (nodeAt cycleStore r)) = 0) [0, 1] = []"
  by (simp add: cycleStore_def makeNode_def makeLink_def nodeAt_def)

lemma tight_depths: "computeDepths negativePadding [0, 1] cycleStore = tightDepths"
  unfolding computeDepths_def Let_def tight_sources
  by (simp add: cycleStore_def makeNode_def makeLink_def tightDepths_def nodeAt_def updNode_def setDepth_def)

subsection \<open>Values, x and the initial y\<close>

lemma tight_values: "computeNodeValues [0, 1] tightDepths = tightValues"
  by (simp add: computeNodeValues_def linkSum_def tightValues_def tightDepths_def
      nodeAt_def linkAt_def updNode_def Let_def)

lemma tight_x: "positionNodesX negativePadding [0, 1] tightValues = tightX"
  by (simp add: positionNodesX_def maxDepthOf_def negativePadding_def DEFAULT_CONFIG_def
      tightValues_def tightX_def nodeAt_def updNode_def Let_def)

lemma tight_columns_x: "getColumns tightX [0, 1] = [[0, 1]]"
  by (simp add: getColumns_def maxDepthOf_def tightX_def nodeAt_def Let_def)

lemma tight_scale: "computeGlobalScale negativePadding tightX [[0, 1]] = 115 / 2"
  by (simp add: computeGlobalScale_def scaleStep_def columnValue_def negativePadding_def DEFAULT_CONFIG_def
      tightX_def nodeAt_def Let_def)

lemma tight_stack:
  "fold (\<lambda>column st. stackColumn negativePadding (115 / 2)
                   (sort_key (\<lambda>r. - node_value (nodeAt st r)) column) (pad_top (padding negativePadding)) st)
     [[0, 1]] tightX = tightAt 20 240"
  by (simp add: negativePadding_def DEFAULT_CONFIG_def tightX_def tightAt_def nodeAt_def updNode_def Let_def)

lemma tight_y: "initializeNodeY negativePadding [0, 1] tightX = tightAt 20 240"
  unfolding initializeNodeY_def Let_def tight_columns_x tight_scale by (rule tight_stack)

lemma tight_placed: "initialPlacement negativePadding [0, 1] cycleStore = tightAt 20 240"
  unfolding initialPlacement_def
  by (simp only: tight_depths tight_values tight_x tight_y)

lemma tight_columns: "getColumns (tightAt ya yb) [0, 1] = [[0, 1]]"
  by (simp add: getColumns_def maxDepthOf_def tightAt_def nodeAt_def Let_def)

subsection \<open>The whole run\<close>

lemma tight_loop:
  "relaxLoop negativePadding 0 ([[0, 1]], tightAt 20 240)
     = Inr ([[0, 1]], tightAt 20 240)"
  by (rule relaxLoop_single) simp

lemma tight_relaxed:
  "relaxNodePositions negativePadding [0, 1] (tightAt 20 240) = Inr (tightAt 20 240)"
  unfolding relaxNodePositions_def tight_columns
  by (simp only: tight_loop sum.case prod.case)

subsection \<open>Link offsets\<close>

lemma tight_sorted_links:
  "fold (\<lambda>column st. fold sortLinks column st) [[0, 1]] (tightAt 20 240)
     = tightAt 20 240"
  by (simp add: sortLinks_def tightAt_def nodeAt_def linkAt_def updNode_def Let_def)

lemma tight_source_offsets:
  "fold (\<lambda>r st. sourceOffsets (linkSum st (sourceLinks (nodeAt st r))) r (sourceLinks (nodeAt st r)) 0 st)
     [0, 1] (tightAt 20 240) = tightLayout"
  by (simp add: linkSum_def tightAt_def tightLayout_def nodeAt_def linkAt_def updLink_def Let_def)

lemma tight_target_offsets:
  "fold (\<lambda>r st. targetOffsets (targetLinks (nodeAt st r)) 0 st) [0, 1] tightLayout = tightLayout"
  by (simp add: tightLayout_def tightLayout_def nodeAt_def linkAt_def updLink_def Let_def)

lemma tight_offsets: "computeLinkOffsets [0, 1] (tightAt 20 240) = tightLayout"
  unfolding computeLinkOffsets_def Let_def tight_columns tight_sorted_links tight_source_offsets
  by (rule tight_target_offsets)

lemma tight_compute: "compute negativePadding cycleGraph cycleStore = Inr (cycleGraph, tightLayout)"
proof -
  have ns: "graph_nodes cycleGraph = [0, 1]" by (simp add: cycleGraph_def)
  have ne: "([0, 1]::nat list) \<noteq> []" by simp
  show ?thesis
    unfolding compute_stages ns
    by (simp only: ne if_False tight_placed tight_relaxed sum.case tight_offsets)
qed

section \<open>The stages after the initial placement\<close>

text \<open>
  C10: when \<open>compute\<close> returns on a graph with nodes, the stages after the initial
  vertical placement (relaxation with collision resolution, link offsets) leave the store
  with the same number of nodes and links, every node's id, label, depth, value, x, width
  and height and every link's source, target and value as the initial placement set
  them, and each node's outgoing and incoming links the same up to their order. What
  these stages write is the nodes' y, the order of the link arrays and the links' width,
  sy and ty.
\<close>

theorem compute_frame:
  assumes "compute cfg g s = Inr (g', s')" and "graph_nodes g \<noteq> []"
  shows "g' = g
     \<and> length (nodeStore s') = length (nodeStore (initialPlacement cfg (graph_nodes g) s))
     \<and> length (linkStore s') = length (linkStore (initialPlacement cfg (graph_nodes g) s))
     \<and> (\<forall>r. node_id (nodeAt s' r) = node_id (nodeAt (initialPlacement cfg (graph_nodes g) s) r)
           \<and> node_label (nodeAt s' r) = node_label (nodeAt (initialPlacement cfg (graph_nodes g) s) r)
           \<and> node_depth (nodeAt s' r) = node_depth (nodeAt (initialPlacement cfg (graph_nodes g) s) r)
           \<and> node_value (nodeAt s' r) = node_value (nodeAt (initialPlacement cfg (graph_nodes g) s) r)
           \<and> node_x (nodeAt s' r) = node_x (nodeAt (initialPlacement cfg (graph_nodes g) s) r)
           \<and> node_width (nodeAt s' r) = node_width (nodeAt (initialPlacement cfg (graph_nodes g) s) r)
           \<and> node_height (nodeAt s' r) = node_height (nodeAt (initialPlacement cfg (graph_nodes g) s) r)
           \<and> mset (sourceLinks (nodeAt s' r))
               = mset (sourceLinks (nodeAt (initialPlacement cfg (graph_nodes g) s) r))
           \<and> mset (targetLinks (nodeAt s' r))
               = mset (targetLinks (nodeAt (initialPlacement cfg (graph_nodes g) s) r)))
     \<and> (\<forall>l. link_source (linkAt s' l) = link_source (linkAt (initialPlacement cfg (graph_nodes g) s) l)
           \<and> link_target (linkAt s' l) = link_target (linkAt (initialPlacement cfg (graph_nodes g) s) l)
           \<and> link_value (linkAt s' l) = link_value (linkAt (initialPlacement cfg (graph_nodes g) s) l))"
proof -
  let ?s0 = "initialPlacement cfg (graph_nodes g) s"
  from compute_Inr[OF assms] obtain s1 where
    rel: "relaxNodePositions cfg (graph_nodes g) ?s0 = Inr s1" and
    fin: "s' = computeLinkOffsets (graph_nodes g) s1" and g: "g' = g"
    by blast
  note a = layout_frame[OF rel fin]
  have fp: "fixedPart s' = fixedPart s1" by (simp add: fin fixedPart_computeLinkOffsets)
  have dy: "dropY s1 = dropY ?s0" by (rule dropY_relaxNodePositions[OF rel])
  have "length (nodeStore s') = length (nodeStore s1)" by (rule fixedPart_fields(14)[OF fp])
  also have "\<dots> = length (nodeStore ?s0)" by (rule dropY_fields(11)[OF dy])
  finally have ln: "length (nodeStore s') = length (nodeStore ?s0)" .
  have "length (linkStore s') = length (linkStore s1)" by (rule fixedPart_fields(15)[OF fp])
  also have "linkStore s1 = linkStore ?s0" using dy by (simp add: dropY_def)
  finally have ll: "length (linkStore s') = length (linkStore ?s0)" .
  show ?thesis
    by (intro conjI allI) (rule g ln ll a)+
qed

theorem compute_frame_witness:
  "compute twoIterations branchGraph branchStore = Inr (branchGraph, branchLayout)
   \<and> graph_nodes branchGraph \<noteq> []
   \<and> initialPlacement twoIterations (graph_nodes branchGraph) branchStore = branchAt 20 20 264 20
   \<and> length (nodeStore branchLayout) = 4 \<and> length (linkStore branchLayout) = 3
   \<and> node_id (nodeAt branchLayout 1) = ''B'' \<and> node_id (nodeAt (branchAt 20 20 264 20) 1) = ''B''
   \<and> node_depth (nodeAt branchLayout 1) = 1 \<and> node_depth (nodeAt (branchAt 20 20 264 20) 1) = 1
   \<and> node_value (nodeAt branchLayout 1) = 3 \<and> node_value (nodeAt (branchAt 20 20 264 20) 1) = 3
   \<and> node_x (nodeAt branchLayout 1) = 341 \<and> node_x (nodeAt (branchAt 20 20 264 20) 1) = 341
   \<and> node_width (nodeAt branchLayout 1) = 18 \<and> node_width (nodeAt (branchAt 20 20 264 20) 1) = 18
   \<and> node_height (nodeAt branchLayout 1) = 345 \<and> node_height (nodeAt (branchAt 20 20 264 20) 1) = 345
   \<and> mset (sourceLinks (nodeAt branchLayout 0)) = mset (sourceLinks (nodeAt (branchAt 20 20 264 20) 0))
   \<and> link_value (linkAt branchLayout 2) = 2 \<and> link_value (linkAt (branchAt 20 20 264 20) 2) = 2
   \<and> node_y (nodeAt (branchAt 20 20 264 20) 1) = 20 \<and> node_y (nodeAt branchLayout 1) = 67
   \<and> link_width (linkAt (branchAt 20 20 264 20) 2) = 0 \<and> link_width (linkAt branchLayout 2) = 345"
proof -
  have ne: "graph_nodes branchGraph \<noteq> []" by (simp add: branchGraph_def)
  have ns: "graph_nodes branchGraph = [0, 1, 2, 3]" by (simp add: branchGraph_def)
  note t = compute_frame[OF branch_compute ne, unfolded ns branch_placed]
  from t have "node_height (nodeAt branchLayout 1) = node_height (nodeAt (branchAt 20 20 264 20) 1)"
    by blast
  with t branch_compute ne show ?thesis
    unfolding ns branch_placed
    by (simp add: branchLayout_def branchAt_def nodeAt_def linkAt_def)
qed

section \<open>Columns stay free of overlaps: the claim\<close>



section \<open>Node heights: the claim\<close>

lemma stated_candidates:
  assumes "0 \<le> nodePadding cfg"
  shows "statedCandidates cfg s columns = scaleCandidates cfg s columns"
  unfolding statedCandidates_def scaleCandidates_def
proof (rule map_cong[OF refl])
  fix c assume "c \<in> set (filter (\<lambda>c. 0 < (\<Sum>r\<leftarrow>c. node_value (nodeAt s r))) columns)"
  then have "0 < (\<Sum>r\<leftarrow>c. node_value (nodeAt s r))" by simp
  then have "c \<noteq> []" by auto
  then have "1 \<le> real (length c)" by (cases c) simp_all
  with assms have "0 \<le> (real (length c) - 1) * nodePadding cfg" by simp
  then show "(cfg_height cfg - pad_top (padding cfg) - pad_bottom (padding cfg)
                 - (real (length c) - 1) * nodePadding cfg)
               / (\<Sum>r\<leftarrow>c. node_value (nodeAt s r))
           = (cfg_height cfg - pad_top (padding cfg) - pad_bottom (padding cfg)
                 - max 0 ((real (length c) - 1) * nodePadding cfg))
               / (\<Sum>r\<leftarrow>c. node_value (nodeAt s r))"
    by simp
qed

lemma stated_scale:
  assumes "0 \<le> nodePadding cfg"
  shows "statedScale cfg s ns = specScale cfg s ns"
  by (simp add: statedScale_def specScale_def stated_candidates[OF assms])

text \<open>
  C5, as the code has it: with innerHeight = height - padding.top - padding.bottom, let
  S be the minimum, over the depth columns with positive total value, of
  (innerHeight - max(0, (count - 1) * nodePadding)) / totalValue, or 0 if no column has
  positive total value. After \<open>compute\<close> every node of the graph is in the returned store
  and has height max(1, value * S), with the one S for all columns. For
  nodePadding \<ge> 0 this S is the minimum of (innerHeight - (count - 1) * nodePadding) /
  totalValue, as the specification words it.
\<close>

theorem compute_heights:
  assumes "compute cfg g s = Inr (g', s')"
    and "r \<in> set (graph_nodes g)" and "r < length (nodeStore s)"
  shows "r < length (nodeStore s')
       \<and> node_height (nodeAt s' r)
           = max 1 (node_value (nodeAt s' r) * specScale cfg s' (graph_nodes g))
       \<and> (0 \<le> nodePadding cfg \<longrightarrow>
            node_height (nodeAt s' r)
              = max 1 (node_value (nodeAt s' r) * statedScale cfg s' (graph_nodes g)))"
proof -
  have "length (nodeStore s') = length (nodeStore s)"
    using compute_shape(1)[OF assms(1)] by (rule map_eq_imp_length_eq)
  with assms(3) have "r < length (nodeStore s')" by simp
  moreover note h = heights_after_compute[OF assms]
  ultimately show ?thesis by (simp add: stated_scale)
qed

lemma branch_specScale: "specScale twoIterations branchLayout [0, 1, 2, 3] = 115"
proof -
  have c: "getColumns branchLayout [0, 1, 2, 3] = [[0], [1], [2, 3]]"
    by (simp add: getColumns_def maxDepthOf_def branchLayout_def nodeAt_def Let_def)
  have k: "scaleCandidates twoIterations branchLayout [[0], [1], [2, 3]] = [115, 460 / 3, 446 / 3]"
    by (simp add: scaleCandidates_def twoIterations_def DEFAULT_CONFIG_def branchLayout_def nodeAt_def)
  show ?thesis unfolding specScale_def Let_def c k by simp
qed

theorem compute_heights_witness:
  "compute twoIterations branchGraph branchStore = Inr (branchGraph, branchLayout)
   \<and> (3::nat) \<in> set (graph_nodes branchGraph) \<and> (3::nat) < length (nodeStore branchStore)
   \<and> 0 \<le> nodePadding twoIterations
   \<and> specScale twoIterations branchLayout (graph_nodes branchGraph) = 115
   \<and> statedScale twoIterations branchLayout (graph_nodes branchGraph) = 115
   \<and> node_value (nodeAt branchLayout 3) = 2
   \<and> node_height (nodeAt branchLayout 3) = max 1 (2 * 115)
   \<and> node_height (nodeAt branchLayout 3) = 230"
proof -
  have ns: "graph_nodes branchGraph = [0, 1, 2, 3]" by (simp add: branchGraph_def)
  have m: "(3::nat) \<in> set (graph_nodes branchGraph)" by (simp add: branchGraph_def)
  have l: "(3::nat) < length (nodeStore branchStore)" by (simp add: branchStore_def)
  have p: "0 \<le> nodePadding twoIterations" by (simp add: twoIterations_def DEFAULT_CONFIG_def)
  note sp = branch_specScale
  have st: "statedScale twoIterations branchLayout [0, 1, 2, 3] = 115"
    unfolding stated_scale[OF p] by (rule sp)
  have v: "node_value (nodeAt branchLayout 3) = 2"
    by (simp add: branchLayout_def nodeAt_def)
  note t = compute_heights[OF branch_compute m l, unfolded ns sp st v]
  from t have h: "node_height (nodeAt branchLayout 3) = max 1 (2 * 115)" by blast
  then have h2: "node_height (nodeAt branchLayout 3) = 230" by simp
  show ?thesis
    unfolding ns sp st using branch_compute m[unfolded ns] l p v h h2 by blast
qed

text \<open>
  C5 as the spec states it fails for a negative node padding. With nodePadding = -10 the
  two nodes of the cycle share the one column; the code clamps the total padding at 0,
  so S = 460 / 8 and both heights are 230, where the stated formula gives
  S = (460 + 10) / 8 and a height of 235.
\<close>

theorem compute_heights_counterexample:
  "compute negativePadding cycleGraph cycleStore = Inr (cycleGraph, tightLayout)
   \<and> node_value (nodeAt tightLayout 0) = 4
   \<and> node_height (nodeAt tightLayout 0) = 230
   \<and> statedScale negativePadding tightLayout (graph_nodes cycleGraph) = 235 / 4
   \<and> node_height (nodeAt tightLayout 0)
       \<noteq> max 1 (node_value (nodeAt tightLayout 0) * statedScale negativePadding tightLayout (graph_nodes cycleGraph))"
proof -
  have ns: "graph_nodes cycleGraph = [0, 1]" by (simp add: cycleGraph_def)
  have c: "getColumns tightLayout [0, 1] = [[0, 1]]"
    by (simp add: getColumns_def maxDepthOf_def tightLayout_def nodeAt_def Let_def)
  have k: "statedCandidates negativePadding tightLayout [[0, 1]] = [235 / 4]"
    by (simp add: statedCandidates_def negativePadding_def DEFAULT_CONFIG_def tightLayout_def nodeAt_def)
  have st: "statedScale negativePadding tightLayout [0, 1] = 235 / 4"
    unfolding statedScale_def Let_def c k by simp
  have v: "node_value (nodeAt tightLayout 0) = 4" and h: "node_height (nodeAt tightLayout 0) = 230"
    by (simp_all add: tightLayout_def nodeAt_def)
  have d: "node_height (nodeAt tightLayout 0)
       \<noteq> max 1 (node_value (nodeAt tightLayout 0) * statedScale negativePadding tightLayout [0, 1])"
    unfolding st v h by simp
  show ?thesis
    unfolding ns using tight_compute v h st d by blast
qed

section \<open>Link offsets: the claims\<close>

lemma wfGraph_closed:
  assumes "wfGraph g s"
  shows "closedGraph (graph_nodes g) s"
  using assms unfolding wfGraph_def closedGraph_def by blast

lemma compute_links:
  assumes "compute cfg g s = Inr (g', s')"
  shows "mset (sourceLinks (nodeAt s' q)) = mset (sourceLinks (nodeAt s q))"
    and "mset (targetLinks (nodeAt s' q)) = mset (targetLinks (nodeAt s q))"
    and "link_value (linkAt s' l) = link_value (linkAt s l)"
    and "length (nodeStore s') = length (nodeStore s)"
proof -
  have "mset (sourceLinks (nodeAt s' q)) = mset (sourceLinks (nodeAt s q))
      \<and> mset (targetLinks (nodeAt s' q)) = mset (targetLinks (nodeAt s q))
      \<and> link_value (linkAt s' l) = link_value (linkAt s l)"
  proof (cases "graph_nodes g = []")
    case True
    with assms show ?thesis by (simp add: compute_stages)
  next
    case False
    from compute_Inr[OF assms False] obtain s5 where
      rel: "relaxNodePositions cfg (graph_nodes g) (initialPlacement cfg (graph_nodes g) s) = Inr s5"
      and fin: "s' = computeLinkOffsets (graph_nodes g) s5" by blast
    note b = before_linkOffsets[OF rel]
    have fp: "fixedPart s' = fixedPart s5" by (simp add: fin fixedPart_computeLinkOffsets)
    note f = fixedPart_fields[OF fp]
    have l5: "linkAt s5 l = linkAt s l" using b(4) by (simp add: linkAt_def)
    show ?thesis using f(9)[of q] f(10)[of q] f(13)[of l] b(1)[of q] b(2)[of q] l5 by simp
  qed
  then show "mset (sourceLinks (nodeAt s' q)) = mset (sourceLinks (nodeAt s q))"
    and "mset (targetLinks (nodeAt s' q)) = mset (targetLinks (nodeAt s q))"
    and "link_value (linkAt s' l) = link_value (linkAt s l)" by simp_all
  show "length (nodeStore s') = length (nodeStore s)"
    using compute_shape(1)[OF assms] by (rule map_eq_imp_length_eq)
qed

text \<open>
  C2: on a well-formed graph \<open>compute\<close> returns, and for a node whose outgoing links
  have positive total value the returned store holds the node with the outgoing links
  it had, each with the value it had, and: each outgoing link's width is
  (value / total outgoing value) times the node's height; the node's \<open>sourceLinks\<close> are
  sorted by the y of their targets, the first link's \<open>sy\<close> is 0 and each later \<open>sy\<close> is the
  \<open>sy\<close> of the link before it plus that link's width; the widths add up to the node's
  height (so the absolute error is below 1e-5).
\<close>

theorem compute_outgoing_tiling:
  assumes "wfGraph g s" and "r \<in> set (graph_nodes g)"
    and "0 < (\<Sum>l\<leftarrow>sourceLinks (nodeAt s r). link_value (linkAt s l))"
  shows "\<exists>s'. compute cfg g s = Inr (g, s')
       \<and> r < length (nodeStore s')
       \<and> mset (sourceLinks (nodeAt s' r)) = mset (sourceLinks (nodeAt s r))
       \<and> (\<forall>l. link_value (linkAt s' l) = link_value (linkAt s l))
       \<and> (\<forall>l\<in>set (sourceLinks (nodeAt s' r)).
            link_width (linkAt s' l)
              = link_value (linkAt s' l)
                  / (\<Sum>k\<leftarrow>sourceLinks (nodeAt s' r). link_value (linkAt s' k))
                  * node_height (nodeAt s' r))
       \<and> sorted (map (\<lambda>l. node_y (nodeAt s' (link_target (linkAt s' l)))) (sourceLinks (nodeAt s' r)))
       \<and> link_sy (linkAt s' (sourceLinks (nodeAt s' r) ! 0)) = 0
       \<and> (\<forall>i. Suc i < length (sourceLinks (nodeAt s' r)) \<longrightarrow>
             link_sy (linkAt s' (sourceLinks (nodeAt s' r) ! Suc i))
               = link_sy (linkAt s' (sourceLinks (nodeAt s' r) ! i))
                 + link_width (linkAt s' (sourceLinks (nodeAt s' r) ! i)))
       \<and> (\<Sum>l\<leftarrow>sourceLinks (nodeAt s' r). link_width (linkAt s' l)) = node_height (nodeAt s' r)
       \<and> \<bar>(\<Sum>l\<leftarrow>sourceLinks (nodeAt s' r). link_width (linkAt s' l)) - node_height (nodeAt s' r)\<bar>
           < 1 / 100000"
proof -
  from compute_closed[OF wfGraph_closed[OF assms(1)], of cfg]
  obtain s' where c: "compute cfg g s = Inr (g, s')" by blast
  note k = compute_links[OF c]
  have "r < length (nodeStore s')" using wfGraph_source(1)[OF assms(1,2)] k(4) by simp
  moreover have "\<forall>l. link_value (linkAt s' l) = link_value (linkAt s l)" using k(3) by blast
  moreover note k(1)[of r] outgoing_tiling[OF c assms]
  ultimately show ?thesis using c by blast
qed

lemma branch_wf: "wfGraph branchGraph branchStore"
  by (simp add: wfGraph_def branchGraph_def branchStore_def makeNode_def makeLink_def
      nodeAt_def linkAt_def)

theorem compute_outgoing_tiling_witness:
  "wfGraph branchGraph branchStore \<and> (0::nat) \<in> set (graph_nodes branchGraph)
   \<and> (\<Sum>l\<leftarrow>sourceLinks (nodeAt branchStore 0). link_value (linkAt branchStore l)) = 4
   \<and> compute twoIterations branchGraph branchStore = Inr (branchGraph, branchLayout)
   \<and> sourceLinks (nodeAt branchLayout 0) = [0, 1]
   \<and> node_height (nodeAt branchLayout 0) = 460
   \<and> link_width (linkAt branchLayout 0) = 3 / 4 * 460
   \<and> link_width (linkAt branchLayout 1) = 1 / 4 * 460
   \<and> node_y (nodeAt branchLayout (link_target (linkAt branchLayout 0))) = 67
   \<and> node_y (nodeAt branchLayout (link_target (linkAt branchLayout 1))) = 365
   \<and> link_sy (linkAt branchLayout 0) = 0
   \<and> link_sy (linkAt branchLayout 1) = 0 + 345
   \<and> (\<Sum>l\<leftarrow>sourceLinks (nodeAt branchLayout 0). link_width (linkAt branchLayout l)) = 460"
proof -
  have m: "(0::nat) \<in> set (graph_nodes branchGraph)" by (simp add: branchGraph_def)
  have v: "(\<Sum>l\<leftarrow>sourceLinks (nodeAt branchStore 0). link_value (linkAt branchStore l)) = 4"
    by (simp add: branchStore_def makeNode_def makeLink_def nodeAt_def linkAt_def)
  then have p: "0 < (\<Sum>l\<leftarrow>sourceLinks (nodeAt branchStore 0). link_value (linkAt branchStore l))"
    by simp
  from compute_outgoing_tiling[OF branch_wf m p, of twoIterations]
  obtain s' where c: "compute twoIterations branchGraph branchStore = Inr (branchGraph, s')"
    and w: "\<forall>l\<in>set (sourceLinks (nodeAt s' 0)).
            link_width (linkAt s' l)
              = link_value (linkAt s' l)
                  / (\<Sum>k\<leftarrow>sourceLinks (nodeAt s' 0). link_value (linkAt s' k))
                  * node_height (nodeAt s' 0)"
    and sm: "(\<Sum>l\<leftarrow>sourceLinks (nodeAt s' 0). link_width (linkAt s' l)) = node_height (nodeAt s' 0)"
    by blast
  from c branch_compute have s': "s' = branchLayout" by simp
  have sl: "sourceLinks (nodeAt branchLayout 0) = [0, 1]"
    and h: "node_height (nodeAt branchLayout 0) = 460"
    and lv: "link_value (linkAt branchLayout 0) = 3" "link_value (linkAt branchLayout 1) = 1"
    and ys: "node_y (nodeAt branchLayout (link_target (linkAt branchLayout 0))) = 67"
      "node_y (nodeAt branchLayout (link_target (linkAt branchLayout 1))) = 365"
    and sy: "link_sy (linkAt branchLayout 0) = 0" "link_sy (linkAt branchLayout 1) = 0 + 345"
    by (simp_all add: branchLayout_def nodeAt_def linkAt_def)
  from w have w0: "link_width (linkAt branchLayout 0) = 3 / 4 * 460"
    and w1: "link_width (linkAt branchLayout 1) = 1 / 4 * 460"
    unfolding s' sl by (simp_all add: lv lv(2)[unfolded One_nat_def] h)
  from sm have sm': "(\<Sum>l\<leftarrow>sourceLinks (nodeAt branchLayout 0). link_width (linkAt branchLayout l)) = 460"
    unfolding s' h .
  show ?thesis
    using branch_wf m v branch_compute sl h w0 w1 ys sy sm' by blast
qed





end
